theory Spec2Isabelle
  imports Main "HOL-Library.Multiset" "HOL-Library.List_Lexorder" "HOL-Library.Product_Lexorder"
begin

section \<open>Strings and the character tables of the platform\<close>

text \<open>
  A Python \<open>str\<close> is a sequence of Unicode code points, and \<open>len\<close> counts code points.
  A code point is a natural number here and a string is a list of them, so that the
  ellipsis U+2026 that \<open>summarize\<close> appends is one character, as it is in Python.
  \<open>ustr\<close> reads an ASCII literal as such a string.
\<close>

type_synonym cp = nat
type_synonym str = "cp list"

definition ustr :: "string \<Rightarrow> str" where
  "ustr s = map of_char s"

text \<open>
  Whitespace is what \<open>str.strip\<close>, \<open>str.isspace\<close> and the class \<open>\s\<close> of a \<open>str\<close> pattern
  use: the code points 9-13, 28-32, U+0085, U+00A0, U+1680, U+2000-U+200A, U+2028, U+2029,
  U+202F, U+205F and U+3000.
\<close>

definition is_space :: "cp \<Rightarrow> bool" where
  "is_space c \<longleftrightarrow>
     (9 \<le> c \<and> c \<le> 13) \<or> (28 \<le> c \<and> c \<le> 32) \<or> c = 133 \<or> c = 160 \<or> c = 5760 \<or>
     (8192 \<le> c \<and> c \<le> 8202) \<or> c = 8232 \<or> c = 8233 \<or> c = 8239 \<or> c = 8287 \<or> c = 12288"

text \<open>
  The tables behind \<open>\d\<close>, \<open>\w\<close>, \<open>str.lower\<close> and case-insensitive matching are those of
  the Unicode database of the Python that runs the program. Their ASCII part is written
  out here; what they say of the code points from 128 on is a parameter \<open>U\<close> of the
  model, and a theorem about \<open>U\<close> holds whatever the database says:
  \<^item> \<open>uni_decimal U c\<close>: \<open>c\<close> is a decimal digit (\<open>str.isdecimal\<close>, the class \<open>\d\<close>);
  \<^item> \<open>uni_alnum U c\<close>: \<open>c\<close> is alphanumeric (\<open>str.isalnum\<close>; \<open>\w\<close> is that or \<open>_\<close>);
  \<^item> \<open>uni_lower U s i\<close>: what \<open>s.lower()\<close> puts for the character at position \<open>i\<close> of
    \<open>s\<close> (one to three code points, and for a capital sigma it depends on the context);
  \<^item> \<open>uni_ci U c x\<close>: under \<open>(?i)\<close> the pattern character \<open>c\<close> matches the character \<open>x\<close>.
\<close>

record tables =
  uni_decimal :: "cp \<Rightarrow> bool"
  uni_alnum :: "cp \<Rightarrow> bool"
  uni_lower :: "str \<Rightarrow> nat \<Rightarrow> str"
  uni_ci :: "cp \<Rightarrow> cp \<Rightarrow> bool"

definition is_digit :: "tables \<Rightarrow> cp \<Rightarrow> bool" where
  "is_digit U c \<longleftrightarrow> (if c < 128 then 48 \<le> c \<and> c \<le> 57 else uni_decimal U c)"

definition is_upper :: "cp \<Rightarrow> bool" where
  "is_upper c \<longleftrightarrow> 65 \<le> c \<and> c \<le> 90"

definition is_letter :: "cp \<Rightarrow> bool" where
  "is_letter c \<longleftrightarrow> is_upper c \<or> (97 \<le> c \<and> c \<le> 122)"

definition is_alnum :: "tables \<Rightarrow> cp \<Rightarrow> bool" where
  "is_alnum U c \<longleftrightarrow>
     (if c < 128 then (48 \<le> c \<and> c \<le> 57) \<or> is_letter c else uni_alnum U c)"

definition is_word :: "tables \<Rightarrow> cp \<Rightarrow> bool" where
  "is_word U c \<longleftrightarrow> is_alnum U c \<or> c = 95"

text \<open>
  \<open>s.lower()\<close>: an ASCII character is lowercased in place, whatever stands around it;
  for the other characters the database decides.
\<close>

definition ascii_lower :: "cp \<Rightarrow> cp" where
  "ascii_lower c = (if is_upper c then c + 32 else c)"

definition lower :: "tables \<Rightarrow> str \<Rightarrow> str" where
  "lower U s =
     concat (map (\<lambda>i. if s ! i < 128 then [ascii_lower (s ! i)] else uni_lower U s i)
                 [0..<length s])"

text \<open>
  Case-insensitive matching of a pattern character \<open>c\<close>. An ASCII letter matches its two
  cases and, besides, \<open>k\<close> matches the Kelvin sign U+212A, \<open>s\<close> the long s U+017F and
  \<open>i\<close> the dotted capital U+0130 and the dotless U+0131; any other ASCII character matches
  itself only.
\<close>

definition ci_eq :: "tables \<Rightarrow> cp \<Rightarrow> cp \<Rightarrow> bool" where
  "ci_eq U c x \<longleftrightarrow>
     (if 128 \<le> c then uni_ci U c x
      else if is_letter c
      then x = ascii_lower c \<or> x + 32 = ascii_lower c \<or> (ascii_lower c = 107 \<and> x = 8490) \<or>
           (ascii_lower c = 115 \<and> x = 383) \<or> (ascii_lower c = 105 \<and> (x = 304 \<or> x = 305))
      else x = c)"

text \<open>
  The table with no entry beyond ASCII. On a text of ASCII characters no table is asked
  about anything else, so the examples on such texts are stated with it.
\<close>

definition ascii_tables :: tables where
  "ascii_tables =
     \<lparr>uni_decimal = (\<lambda>c. False), uni_alnum = (\<lambda>c. False),
      uni_lower = (\<lambda>s i. [s ! i]), uni_ci = (\<lambda>c x. x = c)\<rparr>"

section \<open>The built-ins the program calls\<close>

text \<open>\<open>s.strip()\<close>: whitespace is dropped at both ends.\<close>

definition lstrip :: "str \<Rightarrow> str" where
  "lstrip s = dropWhile is_space s"

definition rstrip :: "str \<Rightarrow> str" where
  "rstrip s = rev (dropWhile is_space (rev s))"

definition strip :: "str \<Rightarrow> str" where
  "strip s = rstrip (lstrip s)"

text \<open>
  \<open>s[:n]\<close>: the first \<open>n\<close> characters; a negative \<open>n\<close> counts from the end, so that
  \<open>s[:-2]\<close> is \<open>s\<close> without its last two characters.
\<close>

definition slice_to :: "str \<Rightarrow> int \<Rightarrow> str" where
  "slice_to s n = (if n < 0 then take (nat (int (length s) + n)) s else take (nat n) s)"

text \<open>\<open>sep.join(xs)\<close>.\<close>

fun join :: "str \<Rightarrow> str list \<Rightarrow> str" where
  "join sep [] = []"
| "join sep [x] = x"
| "join sep (x # y # ys) = x @ sep @ join sep (y # ys)"

text \<open>\<open>a in b\<close> on strings: \<open>a\<close> occurs in \<open>b\<close> as a contiguous substring.\<close>

fun is_substring :: "str \<Rightarrow> str \<Rightarrow> bool" where
  "is_substring a [] = (a = [])"
| "is_substring a (y # ys) = (take (length a) (y # ys) = a \<or> is_substring a ys)"

text \<open>
  \<open>sorted(xs, reverse=True)\<close> on elements that compare equal only when they are
  identical (tuples of a score and a string, compared lexicographically; strings by code
  points): the descending order.
\<close>

definition sorted_reverse :: "'a::linorder list \<Rightarrow> 'a list" where
  "sorted_reverse xs = rev (sort xs)"

text \<open>
  \<open>collections.Counter(ws)\<close> is a dict, which keeps its keys in the order of their first
  insertion: an association list in that order. \<open>most_common(n)\<close> is
  \<open>sorted(items, key=count, reverse=True)[:n]\<close>, a stable sort under the reversed
  comparison of the counts, and the empty list for \<open>n \<le> 0\<close>.
\<close>

fun count_add :: "'k \<Rightarrow> ('k \<times> nat) list \<Rightarrow> ('k \<times> nat) list" where
  "count_add w [] = [(w, 1)]"
| "count_add w ((k, c) # kcs) = (if k = w then (k, Suc c) # kcs else (k, c) # count_add w kcs)"

definition Counter :: "'k list \<Rightarrow> ('k \<times> nat) list" where
  "Counter ws = foldl (\<lambda>d w. count_add w d) [] ws"

definition most_common :: "int \<Rightarrow> ('k \<times> nat) list \<Rightarrow> ('k \<times> nat) list" where
  "most_common n d = take (nat n) (sort_key (\<lambda>kc. - int (snd kc)) d)"

section \<open>Regular expressions as \<open>re\<close> matches them\<close>

text \<open>
  \<open>re\<close> is a backtracking matcher: at a position it tries the alternatives of a pattern in
  a fixed priority order and returns the first way the whole pattern matches. The model
  keeps that order: \<open>ms\<close> lists the states a pattern can end in, the preferred one first.
  A state is the character before the position (\<open>None\<close> at the start of the text), the
  text from the position on, and the groups captured so far.
\<close>

text \<open>
  The flags of a pattern: \<open>ignorecase\<close> is \<open>None\<close> without \<open>(?i)\<close>, and with it the
  comparison that case-insensitive matching uses (\<open>ci_eq U\<close> for the database \<open>U\<close>).
\<close>

record flags =
  ignorecase :: "(cp \<Rightarrow> cp \<Rightarrow> bool) option"
  multiline :: bool

datatype rx =
    Eps
  | Lit cp
  | Cls "cp \<Rightarrow> bool"
  | Bol
  | Cat rx rx
  | Alt rx rx
  | Opt rx
  | Star rx
  | LazyStar rx
  | Grp nat rx

abbreviation Plus :: "rx \<Rightarrow> rx" where
  "Plus r \<equiv> Cat r (Star r)"

abbreviation LazyPlus :: "rx \<Rightarrow> rx" where
  "LazyPlus r \<equiv> Cat r (LazyStar r)"

fun lits :: "str \<Rightarrow> rx" where
  "lits [] = Eps"
| "lits [c] = Lit c"
| "lits (c # d # cs) = Cat (Lit c) (lits (d # cs))"

type_synonym groups = "(nat \<times> str) list"
type_synonym mstate = "cp option \<times> str \<times> groups"

definition lit_eq :: "flags \<Rightarrow> cp \<Rightarrow> cp \<Rightarrow> bool" where
  "lit_eq fl c x \<longleftrightarrow> (case ignorecase fl of None \<Rightarrow> x = c | Some eq \<Rightarrow> eq c x)"

definition at_bol :: "flags \<Rightarrow> cp option \<Rightarrow> bool" where
  "at_bol fl p \<longleftrightarrow> p = None \<or> (multiline fl \<and> p = Some 10)"

text \<open>
  A repetition stops at an iteration that consumes nothing; no pattern of the program has
  a repeated part that can match the empty string.
\<close>

function ms :: "flags \<Rightarrow> rx \<Rightarrow> mstate \<Rightarrow> mstate list" where
  "ms fl Eps z = [z]"
| "ms fl (Lit c) (p, s, g) =
     (case s of [] \<Rightarrow> [] | x # xs \<Rightarrow> if lit_eq fl c x then [(Some x, xs, g)] else [])"
| "ms fl (Cls P) (p, s, g) =
     (case s of [] \<Rightarrow> [] | x # xs \<Rightarrow> if P x then [(Some x, xs, g)] else [])"
| "ms fl Bol (p, s, g) = (if at_bol fl p then [(p, s, g)] else [])"
| "ms fl (Cat r1 r2) z = concat (map (ms fl r2) (ms fl r1 z))"
| "ms fl (Alt r1 r2) z = ms fl r1 z @ ms fl r2 z"
| "ms fl (Opt r) z = ms fl r z @ [z]"
| "ms fl (Star r) (p, s, g) =
     concat (map (\<lambda>z'. if length (fst (snd z')) < length s then ms fl (Star r) z' else [])
                 (ms fl r (p, s, g))) @ [(p, s, g)]"
| "ms fl (LazyStar r) (p, s, g) =
     (p, s, g) #
     concat (map (\<lambda>z'. if length (fst (snd z')) < length s then ms fl (LazyStar r) z' else [])
                 (ms fl r (p, s, g)))"
| "ms fl (Grp n r) (p, s, g) =
     map (\<lambda>(p', s', g'). (p', s', (n, take (length s - length s') s) # g')) (ms fl r (p, s, g))"
  by pat_completeness auto
termination
  by (relation "measures [\<lambda>(fl, r, z). size r, \<lambda>(fl, r, z). length (fst (snd z))]")
     auto

declare ms.simps(8) [simp del] ms.simps(9) [simp del]

text \<open>
  One step of the search loop that \<open>re.sub\<close>, \<open>re.split\<close>, \<open>re.findall\<close> and \<open>re.search\<close>
  share: the first match at the position. After an empty match the loop sets
  \<open>must_advance\<close>, and a match at the same position must then be non-empty.
\<close>

definition match_here :: "flags \<Rightarrow> rx \<Rightarrow> bool \<Rightarrow> cp option \<Rightarrow> str \<Rightarrow> mstate option" where
  "match_here fl r must_advance p s =
     (case filter (\<lambda>z. length (fst (snd z)) \<le> length s \<and>
                        (must_advance \<longrightarrow> length (fst (snd z)) < length s))
                  (ms fl r (p, s, []))
      of [] \<Rightarrow> None | z # _ \<Rightarrow> Some z)"

text \<open>
  The loop itself: the text is cut into the characters no match covers (\<open>Inl\<close>) and the
  matches (\<open>Inr\<close>, the matched text and its groups), from left to right. When no match
  starts at a position the search moves one character on.
\<close>

function scan :: "flags \<Rightarrow> rx \<Rightarrow> bool \<Rightarrow> cp option \<Rightarrow> str \<Rightarrow> (cp + str \<times> groups) list" where
  "scan fl r must_advance p s =
     (case match_here fl r must_advance p s of
        Some (p', s', g) \<Rightarrow>
          if length s' < length s
          then Inr (take (length s - length s') s, g) # scan fl r False p' s'
          else if must_advance then []
          else Inr ([], g) # scan fl r True p s
      | None \<Rightarrow>
          (case s of [] \<Rightarrow> [] | x # xs \<Rightarrow> Inl x # scan fl r False (Some x) xs))"
  by pat_completeness auto
termination
  by (relation "measures [\<lambda>(fl, r, m, p, s). length s, \<lambda>(fl, r, m, p, s). if m then 0 else 1]")
     auto

declare scan.simps [simp del]

text \<open>\<open>re.sub(pattern, repl, text)\<close>: every match is replaced, from left to right.\<close>

definition re_sub :: "flags \<Rightarrow> rx \<Rightarrow> (groups \<Rightarrow> str) \<Rightarrow> str \<Rightarrow> str" where
  "re_sub fl r repl s =
     concat (map (\<lambda>t. case t of Inl c \<Rightarrow> [c] | Inr (m, g) \<Rightarrow> repl g) (scan fl r False None s))"

text \<open>\<open>re.findall(pattern, text)\<close> for a pattern without groups: the matched texts.\<close>

definition re_findall :: "flags \<Rightarrow> rx \<Rightarrow> str \<Rightarrow> str list" where
  "re_findall fl r s =
     concat (map (\<lambda>t. case t of Inl c \<Rightarrow> [] | Inr (m, g) \<Rightarrow> [m]) (scan fl r False None s))"

text \<open>\<open>re.split(pattern, text)\<close> for a pattern without groups: the pieces between the matches.\<close>

fun pieces :: "str \<Rightarrow> (cp + str \<times> groups) list \<Rightarrow> str list" where
  "pieces acc [] = [acc]"
| "pieces acc (Inl c # ts) = pieces (acc @ [c]) ts"
| "pieces acc (Inr m # ts) = acc # pieces [] ts"

definition re_split :: "flags \<Rightarrow> rx \<Rightarrow> str \<Rightarrow> str list" where
  "re_split fl r s = pieces [] (scan fl r False None s)"

text \<open>
  \<open>re.search(pattern, text)\<close>: the start of the first match (\<open>m.start()\<close>), or \<open>None\<close>.
\<close>

fun first_start :: "(cp + str \<times> groups) list \<Rightarrow> nat option" where
  "first_start [] = None"
| "first_start (Inl c # ts) = map_option Suc (first_start ts)"
| "first_start (Inr m # ts) = Some 0"

definition re_search :: "flags \<Rightarrow> rx \<Rightarrow> str \<Rightarrow> nat option" where
  "re_search fl r s = first_start (scan fl r False None s)"

text \<open>The replacement templates: \<open>''\<close> and \<open>r'\1'\<close> (an unset group expands to nothing).\<close>

definition repl_empty :: "groups \<Rightarrow> str" where
  "repl_empty g = []"

definition repl_group :: "nat \<Rightarrow> groups \<Rightarrow> str" where
  "repl_group n g = (case map_of g n of None \<Rightarrow> [] | Some m \<Rightarrow> m)"

fun cats :: "rx list \<Rightarrow> rx" where
  "cats [] = Eps"
| "cats [r] = r"
| "cats (r # q # rs) = Cat r (cats (q # rs))"

definition no_flags :: flags where
  "no_flags = \<lparr>ignorecase = None, multiline = False\<rparr>"

section \<open>The program\<close>

subsection \<open>\<open>clean\<close>\<close>

text \<open>
  The patterns of \<open>clean\<close>, in the order of the source:
  \<^verbatim>\<open>(?m)^---[\s\S]+?---\<close>,
  \<^verbatim>\<open>\[([^\]]+)\]\([^\)]+\)\<close>,
  \<^verbatim>\<open>(?i)@article{[^}]+}|https?://\S+|doi:\S+\<close>,
  \<^verbatim>\<open>!\[.*?\]\([^\)]+\)\<close>,
  \<^verbatim>\<open>[*#>`~]\<close>,
  \<^verbatim>\<open>^Table\s*\d+.*|^Figure\s*\d+.*\<close> with \<open>re.M|re.I\<close>, and
  \<^verbatim>\<open>(?i)\n\s*(references|bibliography|appendix)\s*\n\<close>.
\<close>

definition fm_flags :: flags where
  "fm_flags = \<lparr>ignorecase = None, multiline = True\<rparr>"

definition fm_rx :: rx where
  "fm_rx = cats [Bol, lits (ustr ''---''), LazyPlus (Cls (\<lambda>c. is_space c \<or> \<not> is_space c)),
                 lits (ustr ''---'')]"

definition link_rx :: rx where
  "link_rx = cats [Lit 91, Grp 1 (Plus (Cls (\<lambda>c. c \<noteq> 93))), Lit 93,
                   Lit 40, Plus (Cls (\<lambda>c. c \<noteq> 41)), Lit 41]"

definition noise_flags :: "tables \<Rightarrow> flags" where
  "noise_flags U = \<lparr>ignorecase = Some (ci_eq U), multiline = False\<rparr>"

definition noise_rx :: rx where
  "noise_rx =
     Alt (cats [lits (ustr ''@article{''), Plus (Cls (\<lambda>c. c \<noteq> 125)), Lit 125])
    (Alt (cats [lits (ustr ''http''), Opt (Lit 115), lits (ustr ''://''),
                Plus (Cls (\<lambda>c. \<not> is_space c))])
         (cats [lits (ustr ''doi:''), Plus (Cls (\<lambda>c. \<not> is_space c))]))"

definition image_rx :: rx where
  "image_rx = cats [Lit 33, Lit 91, LazyStar (Cls (\<lambda>c. c \<noteq> 10)), Lit 93,
                    Lit 40, Plus (Cls (\<lambda>c. c \<noteq> 41)), Lit 41]"

definition symbol_rx :: rx where
  "symbol_rx = Cls (\<lambda>c. c = 42 \<or> c = 35 \<or> c = 62 \<or> c = 96 \<or> c = 126)"

definition caption_flags :: "tables \<Rightarrow> flags" where
  "caption_flags U = \<lparr>ignorecase = Some (ci_eq U), multiline = True\<rparr>"

definition caption_rx :: "tables \<Rightarrow> rx" where
  "caption_rx U =
     Alt (cats [Bol, lits (ustr ''Table''), Star (Cls is_space), Plus (Cls (is_digit U)),
                Star (Cls (\<lambda>c. c \<noteq> 10))])
         (cats [Bol, lits (ustr ''Figure''), Star (Cls is_space), Plus (Cls (is_digit U)),
                Star (Cls (\<lambda>c. c \<noteq> 10))])"

definition cutoff_rx :: rx where
  "cutoff_rx =
     cats [Lit 10, Star (Cls is_space),
           Grp 1 (Alt (lits (ustr ''references''))
                 (Alt (lits (ustr ''bibliography'')) (lits (ustr ''appendix'')))),
           Star (Cls is_space), Lit 10]"

text \<open>The steps of \<open>clean\<close>, one definition for each assignment to \<open>text\<close>.\<close>

definition remove_frontmatter :: "str \<Rightarrow> str" where
  "remove_frontmatter text = re_sub fm_flags fm_rx repl_empty text"

definition fix_links :: "str \<Rightarrow> str" where
  "fix_links text = re_sub no_flags link_rx (repl_group 1) text"

definition remove_noise :: "tables \<Rightarrow> str \<Rightarrow> str" where
  "remove_noise U text = re_sub (noise_flags U) noise_rx repl_empty text"

definition remove_images :: "str \<Rightarrow> str" where
  "remove_images text = re_sub no_flags image_rx repl_empty text"

definition remove_symbols :: "str \<Rightarrow> str" where
  "remove_symbols text = re_sub no_flags symbol_rx repl_empty text"

definition remove_captions :: "tables \<Rightarrow> str \<Rightarrow> str" where
  "remove_captions U text = re_sub (caption_flags U) (caption_rx U) repl_empty text"

definition cut_references :: "tables \<Rightarrow> str \<Rightarrow> str" where
  "cut_references U text =
     (case re_search (noise_flags U) cutoff_rx text of
        None \<Rightarrow> text | Some start \<Rightarrow> take start text)"

definition clean :: "tables \<Rightarrow> str \<Rightarrow> str" where
  "clean U text =
     strip (cut_references U (remove_captions U (remove_symbols (remove_images
       (remove_noise U (fix_links (remove_frontmatter text)))))))"

subsection \<open>\<open>summarize\<close>\<close>

definition terminator_rx :: rx where
  "terminator_rx = Plus (Cls (\<lambda>c. c = 46 \<or> c = 33 \<or> c = 63))"

definition word_rx :: "tables \<Rightarrow> rx" where
  "word_rx U = Plus (Cls (is_word U))"

text \<open>
  \<^verbatim>\<open>[s.strip() for s in re.split(r'[.!?]+', text) if len(s.strip()) > 20]\<close>
\<close>

definition sentences_of :: "str \<Rightarrow> str list" where
  "sentences_of text =
     map strip (filter (\<lambda>s. length (strip s) > 20) (re_split no_flags terminator_rx text))"

definition nothing_msg :: str where
  "nothing_msg = ustr ''Nothing to summarize after cleaning.''"

definition ellipsis :: cp where
  "ellipsis = 8230"

text \<open>
  Keyword mode. \<open>common\<close> is a Python set of strings; \<open>common_words\<close> lists its elements
  (the comprehension runs over the distinct keys of the counter, so none repeats). The
  order in which a set of strings is iterated changes from run to run with the hash seed:
  \<open>summarize\<close> takes it as the parameter \<open>it\<close>, which maps the elements to the order in
  which this run iterates them. \<open>kw_score\<close> is
  \<^verbatim>\<open>sum(w[:5] in s.lower() for w in common)\<close>.
\<close>

definition common_words :: "tables \<Rightarrow> str \<Rightarrow> str list" where
  "common_words U text =
     map fst (filter (\<lambda>(w, c). length w > 4)
                (most_common 20 (Counter (re_findall no_flags (word_rx U) (lower U text)))))"

definition kw_score :: "tables \<Rightarrow> str list \<Rightarrow> str \<Rightarrow> nat" where
  "kw_score U common s =
     sum_list (map (\<lambda>w. if is_substring (take 5 w) (lower U s) then 1 else 0) common)"

definition kw_scored ::
  "tables \<Rightarrow> (str list \<Rightarrow> str list) \<Rightarrow> str \<Rightarrow> str list \<Rightarrow> (nat \<times> str) list" where
  "kw_scored U it text sentences =
     map (\<lambda>s. (kw_score U (it (common_words U text)) s, s)) sentences"

definition kw_ranked ::
  "tables \<Rightarrow> (str list \<Rightarrow> str list) \<Rightarrow> str \<Rightarrow> str list \<Rightarrow> (nat \<times> str) list" where
  "kw_ranked U it text sentences = sorted_reverse (kw_scored U it text sentences)"

text \<open>
  The selection loop (with its \<open>break\<close>) and the return statement
  \<^verbatim>\<open>" ".join(result) or text[:max_len] + "..."\<close> (the last character is U+2026).
\<close>

fun accumulate :: "int \<Rightarrow> int \<Rightarrow> ('s \<times> str) list \<Rightarrow> str list" where
  "accumulate max_len used [] = []"
| "accumulate max_len used ((sc, s) # ranked) =
     (if used + int (length s) \<le> max_len
      then s # accumulate max_len (used + int (length s)) ranked
      else [])"

definition select :: "('s \<times> str) list \<Rightarrow> str \<Rightarrow> int \<Rightarrow> str" where
  "select ranked text max_len =
     (let joined = join (ustr '' '') (accumulate max_len 0 ranked)
      in if joined \<noteq> [] then joined else slice_to text max_len @ [ellipsis])"

definition summarize :: "tables \<Rightarrow> (str list \<Rightarrow> str list) \<Rightarrow> str \<Rightarrow> int \<Rightarrow> str" where
  "summarize U it raw max_len =
     (let text = clean U raw; sentences = sentences_of text
      in if sentences = [] then nothing_msg
         else select (kw_ranked U it text sentences) text max_len)"

text \<open>
  Semantic mode, for a given embedding model: \<open>score text sentences\<close> stands for the dot
  products of the document vector with the sentence vectors, in a linearly ordered type.
\<close>

definition summarize_semantic ::
  "tables \<Rightarrow> (str \<Rightarrow> str list \<Rightarrow> 's::linorder list) \<Rightarrow> str \<Rightarrow> int \<Rightarrow> str" where
  "summarize_semantic U score raw max_len =
     (let text = clean U raw; sentences = sentences_of text
      in if sentences = [] then nothing_msg
         else select (sorted_reverse (zip (score text sentences) sentences)) text max_len)"

subsection \<open>\<open>tag\<close>\<close>

definition stop :: "str list" where
  "stop = map ustr
    [''the'', ''and'', ''for'', ''with'', ''this'', ''that'', ''from'', ''were'', ''been'', ''have'',
     ''using'', ''used'', ''which'', ''their'', ''they'', ''will'', ''would'', ''there'', ''these'',
     ''about'', ''when'', ''what'', ''where'', ''is'', ''are'', ''was'', ''not'', ''but'', ''all'',
     ''into'', ''can'', ''has'', ''more'', ''one'', ''its'', ''out'', ''also'', ''than'', ''other'',
     ''some'', ''very'', ''only'', ''time'', ''just'', ''even'', ''most'', ''like'', ''may'', ''such'',
     ''each'', ''new'', ''based'', ''our'', ''results'', ''study'', ''method'', ''approach'',
     ''proposed'']"

definition candidates :: "tables \<Rightarrow> str \<Rightarrow> str list" where
  "candidates U text =
     filter (\<lambda>w. w \<notin> set stop \<and> length w > 3)
       (re_findall no_flags (word_rx U) (lower U text))"

definition tag :: "tables \<Rightarrow> str \<Rightarrow> int \<Rightarrow> str list" where
  "tag U text topn = map fst (most_common topn (Counter (candidates U text)))"

subsection \<open>The metrics and the run\<close>

text \<open>
  \<^verbatim>\<open>f"{len(summary)/max(len(text),1):.1%}"\<close>: the quotient of two integers is the nearest
  double (ties to even); the format multiplies the double by 100, again rounded to the
  nearest double, and prints the exact value of the product rounded to one decimal (ties
  to even), followed by \<open>%\<close>. A positive double is a pair \<open>(m, e)\<close> of value \<open>m * 2 ^ e\<close>
  with \<open>2 ^ 52 \<le> m < 2 ^ 53\<close>; lengths of strings are far from the overflow and underflow
  of doubles.
\<close>

fun bitlen :: "nat \<Rightarrow> nat" where
  "bitlen n = (if n = 0 then 0 else Suc (bitlen (n div 2)))"

definition round_even :: "nat \<Rightarrow> nat \<Rightarrow> nat" where
  "round_even num den =
     (let q = num div den; r = num mod den
      in if 2 * r < den then q else if 2 * r > den then q + 1
         else if even q then q else q + 1)"

text \<open>\<open>scaled num den e\<close> is the fraction \<open>(num / den) / 2 ^ e\<close>.\<close>

definition scaled :: "nat \<Rightarrow> nat \<Rightarrow> int \<Rightarrow> nat \<times> nat" where
  "scaled num den e = (if e \<ge> 0 then (num, den * 2 ^ nat e) else (num * 2 ^ nat (- e), den))"

definition to_double :: "nat \<Rightarrow> nat \<Rightarrow> nat \<times> int" where
  "to_double num den =
     (if num = 0 then (0, 0)
      else let e0 = int (bitlen num) - int (bitlen den) - 53;
               (n0, d0) = scaled num den e0;
               e = (if n0 div d0 \<ge> 2 ^ 53 then e0 + 1 else e0);
               (n, d) = scaled num den e;
               m = round_even n d
           in if m = 2 ^ 53 then (2 ^ 52, e + 1) else (m, e))"

fun decimal :: "nat \<Rightarrow> str" where
  "decimal n = (if n < 10 then [48 + n] else decimal (n div 10) @ [48 + n mod 10])"

definition percent1 :: "nat \<times> int \<Rightarrow> str" where
  "percent1 x =
     (let (m, e) = x;
          (n, d) = scaled (100 * m) 1 (- e);
          (m', e') = to_double n d;
          (n', d') = scaled (10 * m') 1 (- e');
          tenths = round_even n' d'
      in decimal (tenths div 10) @ [46] @ decimal (tenths mod 10) @ [37])"

definition compression_of :: "str \<Rightarrow> str \<Rightarrow> str" where
  "compression_of summary text = percent1 (to_double (length summary) (max (length text) 1))"

record metrics =
  original_words :: nat
  summary_words :: nat
  compression :: str

record result =
  summary :: str
  tags :: "str list"
  metrics :: metrics

definition run :: "tables \<Rightarrow> (str list \<Rightarrow> str list) \<Rightarrow> str \<Rightarrow> result" where
  "run U it text =
     (let sm = summarize U it text 450;
          tg = tag U (sm @ text) 8
      in \<lparr>summary = sm, tags = tg,
          metrics = \<lparr>original_words = length (re_findall no_flags (word_rx U) text),
                     summary_words = length (re_findall no_flags (word_rx U) sm),
                     compression = compression_of sm text\<rparr>\<rparr>)"

section \<open>Notions of the specification\<close>

text \<open>
  The specification speaks of runs of characters, of splitting at runs, of the first
  occurrence of a token and of texts free of markup. These definitions say what that
  means, independently of the matcher; the theorems relate the program to them.
\<close>

text \<open>\<open>runs P s\<close>: the maximal runs of characters that satisfy \<open>P\<close>, from left to right.\<close>

function runs :: "('a \<Rightarrow> bool) \<Rightarrow> 'a list \<Rightarrow> 'a list list" where
  "runs P [] = []"
| "runs P (x # xs) =
     (if P x then (x # takeWhile P xs) # runs P (dropWhile P xs) else runs P xs)"
  by pat_completeness auto
termination
  by (relation "measure (\<lambda>(P, s). length s)") (auto simp: length_dropWhile_le less_Suc_eq_le)

text \<open>
  \<open>fields P s\<close>: the pieces of \<open>s\<close> between the maximal runs of separators (characters
  that satisfy \<open>P\<close>); a run at either end leaves an empty piece there.
\<close>

function fields :: "('a \<Rightarrow> bool) \<Rightarrow> 'a list \<Rightarrow> 'a list list" where
  "fields P s =
     takeWhile (\<lambda>c. \<not> P c) s #
     (case dropWhile (\<lambda>c. \<not> P c) s of [] \<Rightarrow> [] | x # xs \<Rightarrow> fields P (dropWhile P xs))"
  by pat_completeness auto
termination
proof (relation "measure (\<lambda>(P, s). length s)")
  fix P :: "'a \<Rightarrow> bool" and s x xs
  assume "dropWhile (\<lambda>c. \<not> P c) s = x # xs"
  then have "Suc (length xs) \<le> length s"
    by (metis length_Cons length_dropWhile_le)
  moreover have "length (dropWhile P xs) \<le> length xs"
    by (rule length_dropWhile_le)
  ultimately show "((P, dropWhile P xs), (P, s)) \<in> measure (\<lambda>(P, s). length s)"
    by simp
qed simp

declare fields.simps [simp del]

definition is_terminator :: "cp \<Rightarrow> bool" where
  "is_terminator c \<longleftrightarrow> c = 46 \<or> c = 33 \<or> c = 63"

text \<open>\<open>first_index ws w\<close>: the position at which \<open>w\<close> is first met in \<open>ws\<close>.\<close>

definition first_index :: "'a list \<Rightarrow> 'a \<Rightarrow> nat" where
  "first_index ws w = length (takeWhile (\<lambda>x. x \<noteq> w) ws)"

text \<open>
  \<open>stuck fl A r\<close>: the pattern \<open>r\<close> needs a character outside the alphabet \<open>A\<close>, so it
  matches nowhere in a text over \<open>A\<close>.
\<close>

fun stuck :: "flags \<Rightarrow> (cp \<Rightarrow> bool) \<Rightarrow> rx \<Rightarrow> bool" where
  "stuck fl A Eps = False"
| "stuck fl A (Lit c) = (\<forall>x. A x \<longrightarrow> \<not> lit_eq fl c x)"
| "stuck fl A (Cls P) = (\<forall>x. A x \<longrightarrow> \<not> P x)"
| "stuck fl A Bol = False"
| "stuck fl A (Cat r1 r2) = (stuck fl A r1 \<or> stuck fl A r2)"
| "stuck fl A (Alt r1 r2) = (stuck fl A r1 \<and> stuck fl A r2)"
| "stuck fl A (Opt r) = False"
| "stuck fl A (Star r) = False"
| "stuck fl A (LazyStar r) = False"
| "stuck fl A (Grp n r) = stuck fl A r"

text \<open>
  A text is free of markup when none of the seven patterns of \<open>clean\<close> matches anywhere
  in it.
\<close>

definition markup_free :: "tables \<Rightarrow> str \<Rightarrow> bool" where
  "markup_free U text \<longleftrightarrow>
     re_search fm_flags fm_rx text = None \<and>
     re_search no_flags link_rx text = None \<and>
     re_search (noise_flags U) noise_rx text = None \<and>
     re_search no_flags image_rx text = None \<and>
     re_search no_flags symbol_rx text = None \<and>
     re_search (caption_flags U) (caption_rx U) text = None \<and>
     re_search (noise_flags U) cutoff_rx text = None"

text \<open>
  An unmarked character is none of \<open>- [ @ : * # > ` ~\<close> and no line feed; a plain
  character is unmarked and no decimal digit (of any script: what \<open>\d\<close> matches). In a
  text of plain characters no pattern of \<open>clean\<close> can match.
\<close>

definition unmarked :: "cp \<Rightarrow> bool" where
  "unmarked c \<longleftrightarrow>
     c \<noteq> 45 \<and> c \<noteq> 91 \<and> c \<noteq> 64 \<and> c \<noteq> 58 \<and> c \<noteq> 42 \<and> c \<noteq> 35 \<and> c \<noteq> 62 \<and> c \<noteq> 96 \<and>
     c \<noteq> 126 \<and> c \<noteq> 10"

definition plain :: "tables \<Rightarrow> cp \<Rightarrow> bool" where
  "plain U c \<longleftrightarrow> unmarked c \<and> \<not> is_digit U c"

section \<open>The matcher: where it ends and where it cannot match\<close>

lemma ms_suffix:
  "z' \<in> set (ms fl r z) \<Longrightarrow> \<exists>u. fst (snd z) = u @ fst (snd z')"
proof (induction fl r z arbitrary: z' rule: ms.induct)
  case (1 fl z)
  then show ?case by simp
next
  case (2 fl c p s g)
  then show ?case by (auto split: list.splits if_splits)
next
  case (3 fl P p s g)
  then show ?case by (auto split: list.splits if_splits)
next
  case (4 fl p s g)
  then show ?case by (auto split: if_splits)
next
  case (5 fl r1 r2 z)
  from "5.prems" obtain z1 where z1: "z1 \<in> set (ms fl r1 z)" and z': "z' \<in> set (ms fl r2 z1)"
    by auto
  from "5.IH"(1) [OF z1] obtain u where u: "fst (snd z) = u @ fst (snd z1)" by blast
  from "5.IH"(2) [OF z1 z'] obtain v where v: "fst (snd z1) = v @ fst (snd z')" by blast
  show ?case using u v by simp
next
  case (6 fl r1 r2 z)
  from "6.prems" have "z' \<in> set (ms fl r1 z) \<or> z' \<in> set (ms fl r2 z)" by simp
  then show ?case using "6.IH" by blast
next
  case (7 fl r z)
  from "7.prems" have "z' \<in> set (ms fl r z) \<or> z' = z" by auto
  then show ?case
  proof
    assume "z' \<in> set (ms fl r z)"
    then show ?thesis by (rule "7.IH")
  next
    assume "z' = z"
    then show ?thesis by simp
  qed
next
  case (8 fl r p s g)
  show ?case
  proof (cases "z' = (p, s, g)")
    case True
    then show ?thesis by simp
  next
    case False
    with "8.prems" obtain z1 where z1: "z1 \<in> set (ms fl r (p, s, g))"
      and lt: "length (fst (snd z1)) < length s" and z': "z' \<in> set (ms fl (Star r) z1)"
      by (auto simp: ms.simps(8) [of fl r p s g] split: if_splits)
    from "8.IH"(1) [OF z1] obtain u where u: "s = u @ fst (snd z1)" by auto
    from "8.IH"(2) [OF z1 lt z'] obtain v where v: "fst (snd z1) = v @ fst (snd z')" by blast
    show ?thesis using u v by simp
  qed
next
  case (9 fl r p s g)
  show ?case
  proof (cases "z' = (p, s, g)")
    case True
    then show ?thesis by simp
  next
    case False
    with "9.prems" obtain z1 where z1: "z1 \<in> set (ms fl r (p, s, g))"
      and lt: "length (fst (snd z1)) < length s" and z': "z' \<in> set (ms fl (LazyStar r) z1)"
      by (auto simp: ms.simps(9) [of fl r p s g] split: if_splits)
    from "9.IH"(1) [OF z1] obtain u where u: "s = u @ fst (snd z1)" by auto
    from "9.IH"(2) [OF z1 lt z'] obtain v where v: "fst (snd z1) = v @ fst (snd z')" by blast
    show ?thesis using u v by simp
  qed
next
  case (10 fl n r p s g)
  then show ?case by fastforce
qed

lemma ms_stuck:
  "stuck fl A r \<Longrightarrow> \<forall>x \<in> set s. A x \<Longrightarrow> ms fl r (p, s, g) = []"
proof (induction r arbitrary: p s g)
  case (Lit c)
  then show ?case by (cases s) auto
next
  case (Cls P)
  then show ?case by (cases s) auto
next
  case (Cat r1 r2)
  show ?case
  proof (cases "stuck fl A r1")
    case True
    then show ?thesis using Cat.IH(1) Cat.prems(2) by simp
  next
    case False
    with Cat.prems have st: "stuck fl A r2" by simp
    have "ms fl r2 z1 = []" if "z1 \<in> set (ms fl r1 (p, s, g))" for z1
    proof -
      from ms_suffix [OF that] obtain u where "s = u @ fst (snd z1)" by auto
      with Cat.prems(2) have "\<forall>x \<in> set (fst (snd z1)). A x"
        by (metis Un_iff set_append)
      from Cat.IH(2) [OF st this, of "fst z1" "snd (snd z1)"] show ?thesis by simp
    qed
    then show ?thesis by simp
  qed
next
  case (Alt r1 r2)
  then show ?case by simp
next
  case (Grp n r)
  then show ?case by simp
qed simp_all

lemma scan_stuck:
  "stuck fl A r \<Longrightarrow> \<forall>x \<in> set s. A x \<Longrightarrow> scan fl r ma p s = map Inl s"
proof (induction s arbitrary: ma p)
  case Nil
  then have "match_here fl r ma p [] = None"
    by (simp add: match_here_def ms_stuck [where A = A])
  then show ?case by (simp add: scan.simps [of fl r ma p "[]"])
next
  case (Cons x xs)
  from Cons.prems have "ms fl r (p, x # xs, []) = []" by (rule ms_stuck)
  then have "match_here fl r ma p (x # xs) = None" by (simp add: match_here_def)
  moreover from Cons have "scan fl r False (Some x) xs = map Inl xs" by simp
  ultimately show ?case by (simp add: scan.simps [of fl r ma p "x # xs"])
qed

lemma match_here_advance:
  "match_here fl r ma p s = Some (p', s', g) \<Longrightarrow> length s' \<le> length s \<and> (ma \<longrightarrow> length s' < length s)"
proof -
  assume a: "match_here fl r ma p s = Some (p', s', g)"
  let ?ok = "\<lambda>z. length (fst (snd z)) \<le> length s \<and> (ma \<longrightarrow> length (fst (snd z)) < length s)"
  from a obtain zs where "filter ?ok (ms fl r (p, s, [])) = (p', s', g) # zs"
    by (auto simp: match_here_def split: list.splits)
  then have "(p', s', g) \<in> set (filter ?ok (ms fl r (p, s, [])))" by simp
  then show ?thesis by simp
qed

lemma scan_no_match:
  "first_start (scan fl r ma p s) = None \<Longrightarrow> scan fl r ma p s = map Inl s"
proof (induction fl r ma p s rule: scan.induct)
  case (1 fl r ma p s)
  show ?case
  proof (cases "match_here fl r ma p s")
    case None
    show ?thesis
    proof (cases s)
      case Nil
      with None show ?thesis by (subst scan.simps) simp
    next
      case (Cons x xs)
      from "1.prems" None Cons have "first_start (scan fl r False (Some x) xs) = None"
        by (subst (asm) scan.simps) simp
      from "1.IH"(1) [OF None Cons this] None Cons show ?thesis
        by (subst scan.simps) simp
    qed
  next
    case (Some z)
    obtain p' s' g where z: "z = (p', s', g)" by (cases z)
    from match_here_advance Some z have adv: "ma \<longrightarrow> length s' < length s" by blast
    show ?thesis
    proof (cases "length s' < length s")
      case True
      with "1.prems" Some z show ?thesis by (subst (asm) scan.simps) simp
    next
      case False
      with adv have "\<not> ma" by blast
      with False "1.prems" Some z show ?thesis by (subst (asm) scan.simps) simp
    qed
  qed
qed

lemma concat_singletons: "concat (map (\<lambda>c. [c]) s) = s"
  by (induction s) simp_all

lemma re_sub_no_match:
  assumes "re_search fl r s = None"
  shows "re_sub fl r repl s = s"
proof -
  from assms have "first_start (scan fl r False None s) = None"
    by (simp add: re_search_def)
  then have "scan fl r False None s = map Inl s"
    by (rule scan_no_match)
  then show ?thesis by (simp add: re_sub_def comp_def concat_singletons)
qed


lemma first_start_Inl: "first_start (map Inl s) = None"
  by (induction s) simp_all

lemma re_search_stuck:
  "stuck fl A r \<Longrightarrow> \<forall>x \<in> set s. A x \<Longrightarrow> re_search fl r s = None"
  by (simp add: re_search_def scan_stuck [where A = A] first_start_Inl)

section \<open>The selection loop and the budget\<close>

lemma length_join:
  "length (join sep xs) = sum_list (map length xs) + length sep * (length xs - 1)"
  by (induction sep xs rule: join.induct) simp_all

lemma accumulate_within:
  "used \<le> B \<Longrightarrow> used + int (sum_list (map length (accumulate B used ranked))) \<le> B"
proof (induction ranked arbitrary: used)
  case Nil
  then show ?case by simp
next
  case (Cons a ranked)
  obtain sc s where a: "a = (sc, s)" by (cases a)
  show ?case
  proof (cases "used + int (length s) \<le> B")
    case True
    from Cons.IH [OF True] show ?thesis using True by (simp add: a)
  next
    case False
    then show ?thesis using Cons.prems by (simp add: a)
  qed
qed

lemma accumulate_subset: "set (accumulate B used ranked) \<subseteq> snd ` set ranked"
proof (induction ranked arbitrary: used)
  case Nil
  then show ?case by simp
next
  case (Cons a ranked)
  obtain sc s where a: "a = (sc, s)" by (cases a)
  from Cons.IH [of "used + int (length s)"] show ?case by (auto simp: a)
qed

lemma select_joined:
  "join (ustr '' '') (accumulate B 0 ranked) \<noteq> [] \<Longrightarrow>
   select ranked text B = join (ustr '' '') (accumulate B 0 ranked)"
  by (simp add: select_def Let_def)

lemma select_fallback:
  "join (ustr '' '') (accumulate B 0 ranked) = [] \<Longrightarrow>
   select ranked text B = slice_to text B @ [ellipsis]"
  by (simp add: select_def Let_def)

text \<open>
  C1, as the code has it. The loop counts the characters of the sentences it keeps and
  not the spaces that \<open>join\<close> puts between them: for every budget \<open>B \<ge> 0\<close> and every
  sequence of scored sentences, sorted in descending order, the lengths of the chosen
  sentences add up to at most \<open>B\<close>; when the summary is the joined text (not the
  fallback), its length is that sum plus one for each space, so it is at most
  \<open>B + k - 1\<close> for \<open>k\<close> chosen sentences.
\<close>

theorem select_budget:
  fixes pairs :: "('s::linorder \<times> str) list"
  assumes "0 \<le> B"
  shows "int (sum_list (map length (accumulate B 0 (sorted_reverse pairs)))) \<le> B \<and>
         (join (ustr '' '') (accumulate B 0 (sorted_reverse pairs)) \<noteq> [] \<longrightarrow>
            select (sorted_reverse pairs) text B =
              join (ustr '' '') (accumulate B 0 (sorted_reverse pairs)) \<and>
            length (select (sorted_reverse pairs) text B) =
              sum_list (map length (accumulate B 0 (sorted_reverse pairs))) +
              (length (accumulate B 0 (sorted_reverse pairs)) - 1) \<and>
            int (length (select (sorted_reverse pairs) text B)) \<le>
              B + int (length (accumulate B 0 (sorted_reverse pairs))) - 1)"
proof -
  let ?chosen = "accumulate B 0 (sorted_reverse pairs)"
  from accumulate_within [OF assms, of "sorted_reverse pairs"]
  have sum: "int (sum_list (map length ?chosen)) \<le> B" by simp
  have len: "length (join (ustr '' '') ?chosen) = sum_list (map length ?chosen) + (length ?chosen - 1)"
    by (simp add: length_join ustr_def)
  show ?thesis
  proof (intro conjI impI)
    assume ne: "join (ustr '' '') ?chosen \<noteq> []"
    then have "?chosen \<noteq> []" by auto
    then have pos: "0 < length ?chosen" by simp
    from ne show sel: "select (sorted_reverse pairs) text B = join (ustr '' '') ?chosen"
      by (rule select_joined)
    from sel len show "length (select (sorted_reverse pairs) text B) =
        sum_list (map length ?chosen) + (length ?chosen - 1)" by simp
    with sum pos show "int (length (select (sorted_reverse pairs) text B)) \<le>
        B + int (length ?chosen) - 1" by linarith
  qed (rule sum)
qed

lemma two_sentences_ranked:
  "sorted_reverse [(3::nat, replicate 21 (97::nat)), (2, replicate 21 98)] =
     [(3, replicate 21 97), (2, replicate 21 98)]"
  by (simp add: sorted_reverse_def)

lemma two_sentences_chosen:
  "accumulate 42 0 [(3::nat, replicate 21 (97::nat)), (2, replicate 21 98)] =
     [replicate 21 97, replicate 21 98]"
  by simp

theorem select_budget_witness:
  "(0::int) \<le> 42 \<and>
   join (ustr '' '') (accumulate 42 0 (sorted_reverse [(3::nat, replicate 21 (97::nat)), (2, replicate 21 98)])) \<noteq> [] \<and>
   length (select (sorted_reverse [(3::nat, replicate 21 (97::nat)), (2, replicate 21 98)]) [] 42) = 43"
  using select_budget [of 42 "[(3::nat, replicate 21 (97::nat)), (2, replicate 21 98)]" "[]"]
  by (simp add: two_sentences_ranked two_sentences_chosen ustr_def)

text \<open>
  C1 as it is stated fails: two sentences of 21 characters each fit a budget of 42, and
  the summary that joins them has 43 characters.
\<close>

theorem select_budget_counterexample:
  "(0::int) \<le> 42 \<and>
   select (sorted_reverse [(3::nat, replicate 21 (97::nat)), (2, replicate 21 98)]) [] 42 =
     join (ustr '' '') [replicate 21 97, replicate 21 98] \<and>
   int (length (select (sorted_reverse [(3::nat, replicate 21 (97::nat)), (2, replicate 21 98)]) [] 42)) > 42"
  by (simp add: two_sentences_ranked select_def ustr_def)

section \<open>Patterns of the form \<open>[...]+\<close>\<close>

lemma ms_star_cls:
  "ms fl (Star (Cls P)) (p, s, g) \<noteq> [] \<and>
   fst (snd (hd (ms fl (Star (Cls P)) (p, s, g)))) = dropWhile P s \<and>
   snd (snd (hd (ms fl (Star (Cls P)) (p, s, g)))) = g"
proof (induction s arbitrary: p)
  case Nil
  then show ?case by (simp add: ms.simps(8) [of fl "Cls P" p "[]" g])
next
  case (Cons x xs)
  show ?case
  proof (cases "P x")
    case True
    then have "ms fl (Star (Cls P)) (p, x # xs, g) =
        ms fl (Star (Cls P)) (Some x, xs, g) @ [(p, x # xs, g)]"
      by (simp add: ms.simps(8) [of fl "Cls P" p "x # xs" g])
    with Cons [of "Some x"] show ?thesis using True by simp
  next
    case False
    then show ?thesis by (simp add: ms.simps(8) [of fl "Cls P" p "x # xs" g])
  qed
qed

lemma match_here_plus_cls_Nil: "match_here fl (Plus (Cls P)) ma p [] = None"
  by (simp add: match_here_def)

lemma match_here_plus_cls_no: "\<not> P x \<Longrightarrow> match_here fl (Plus (Cls P)) ma p (x # xs) = None"
  by (simp add: match_here_def)

lemma match_here_plus_cls_yes:
  assumes "P x"
  shows "\<exists>q. match_here fl (Plus (Cls P)) ma p (x # xs) = Some (q, dropWhile P xs, [])"
proof -
  let ?zs = "ms fl (Star (Cls P)) (Some x, xs, [])"
  let ?ok = "\<lambda>z. length (fst (snd z)) \<le> length (x # xs) \<and>
                  (ma \<longrightarrow> length (fst (snd z)) < length (x # xs))"
  have all: "ms fl (Plus (Cls P)) (p, x # xs, []) = ?zs" using assms by simp
  have "?ok z" if "z \<in> set ?zs" for z
  proof -
    from ms_suffix [OF that] obtain u where "xs = u @ fst (snd z)" by auto
    then have "length (fst (snd z)) \<le> length xs"
      by (metis le_add2 length_append)
    then show ?thesis by simp
  qed
  then have "filter ?ok ?zs = ?zs" by (simp add: filter_id_conv)
  moreover from ms_star_cls [of fl P "Some x" xs "[]"] obtain z zs where
    zs: "?zs = z # zs" and z: "fst (snd z) = dropWhile P xs" "snd (snd z) = []"
    by (cases ?zs) auto
  ultimately have "match_here fl (Plus (Cls P)) ma p (x # xs) = Some z"
    unfolding match_here_def all by simp
  moreover have "z = (fst z, dropWhile P xs, [])" using z by (cases z) auto
  ultimately show ?thesis by metis
qed

lemma scan_plus_cls_Nil: "scan fl (Plus (Cls P)) ma p [] = []"
  by (subst scan.simps) (simp add: match_here_plus_cls_Nil)

lemma scan_plus_cls_no:
  "\<not> P x \<Longrightarrow> scan fl (Plus (Cls P)) ma p (x # xs) = Inl x # scan fl (Plus (Cls P)) False (Some x) xs"
  by (subst scan.simps) (simp add: match_here_plus_cls_no)

lemma scan_plus_cls_yes:
  assumes "P x"
  shows "\<exists>q. scan fl (Plus (Cls P)) ma p (x # xs) =
           Inr (x # takeWhile P xs, []) # scan fl (Plus (Cls P)) False q (dropWhile P xs)"
proof -
  from match_here_plus_cls_yes [where P = P and x = x and fl = fl and ma = ma and p = p and xs = xs, OF assms] obtain q where
    q: "match_here fl (Plus (Cls P)) ma p (x # xs) = Some (q, dropWhile P xs, [])" by blast
  have le: "length (dropWhile P xs) \<le> length xs" by (rule length_dropWhile_le)
  have "length xs - length (dropWhile P xs) = length (takeWhile P xs)"
    by (metis add_diff_cancel_right' length_append takeWhile_dropWhile_id)
  then have "Suc (length xs) - length (dropWhile P xs) = Suc (length (takeWhile P xs))"
    using le by simp
  moreover have "take (length (takeWhile P xs)) xs = takeWhile P xs"
    by (metis takeWhile_eq_take)
  ultimately have "take (length (x # xs) - length (dropWhile P xs)) (x # xs) = x # takeWhile P xs"
    by simp
  with q le have "scan fl (Plus (Cls P)) ma p (x # xs) =
      Inr (x # takeWhile P xs, []) # scan fl (Plus (Cls P)) False q (dropWhile P xs)"
    by (subst scan.simps) (simp add: less_Suc_eq_le)
  then show ?thesis ..
qed

lemma findall_plus_cls_gen:
  "concat (map (\<lambda>t. case t of Inl c \<Rightarrow> [] | Inr (m, g) \<Rightarrow> [m]) (scan fl (Plus (Cls P)) ma p s)) = runs P s"
proof (induction P s arbitrary: ma p rule: runs.induct)
  case (1 P)
  then show ?case by (simp add: scan_plus_cls_Nil)
next
  case (2 P x xs)
  show ?case
  proof (cases "P x")
    case True
    from scan_plus_cls_yes [where P = P and x = x and fl = fl and ma = ma and p = p and xs = xs, OF True] obtain q where
      "scan fl (Plus (Cls P)) ma p (x # xs) =
         Inr (x # takeWhile P xs, []) # scan fl (Plus (Cls P)) False q (dropWhile P xs)" by blast
    with True "2.IH"(1) [OF True, of False q] show ?thesis by simp
  next
    case False
    with "2.IH"(2) [OF False, of False "Some x"] show ?thesis by (simp add: scan_plus_cls_no)
  qed
qed

lemma re_findall_plus_cls: "re_findall fl (Plus (Cls P)) s = runs P s"
  by (simp add: re_findall_def findall_plus_cls_gen)

lemma fields_Nil: "fields P [] = [[]]"
  by (simp add: fields.simps)

lemma fields_no: "\<not> P x \<Longrightarrow> fields P (x # xs) = (x # hd (fields P xs)) # tl (fields P xs)"
  by (subst fields.simps, subst (2 3) fields.simps) simp

lemma fields_yes: "P x \<Longrightarrow> fields P (x # xs) = [] # fields P (dropWhile P xs)"
  by (subst fields.simps) simp

lemma fields_not_Nil: "fields P s \<noteq> []"
  by (subst fields.simps) simp

lemma fields_no_case:
  "\<not> P x \<Longrightarrow> fields P (x # xs) = (case fields P xs of [] \<Rightarrow> [[x]] | f # fs \<Rightarrow> (x # f) # fs)"
  using fields_not_Nil [of P xs] by (cases "fields P xs") (simp_all add: fields_no)

lemma split_plus_cls_gen:
  "pieces acc (scan fl (Plus (Cls P)) ma p s) = (acc @ hd (fields P s)) # tl (fields P s)"
proof (induction s arbitrary: acc ma p rule: length_induct)
  case (1 s)
  show ?case
  proof (cases s)
    case Nil
    then show ?thesis by (simp add: scan_plus_cls_Nil fields_Nil)
  next
    case (Cons x xs)
    show ?thesis
    proof (cases "P x")
      case True
      from scan_plus_cls_yes [where P = P and x = x and fl = fl and ma = ma and p = p and xs = xs, OF True] obtain q where
        sc: "scan fl (Plus (Cls P)) ma p (x # xs) =
           Inr (x # takeWhile P xs, []) # scan fl (Plus (Cls P)) False q (dropWhile P xs)" by blast
      have "length (dropWhile P xs) < length s"
        using Cons length_dropWhile_le [of P xs] by simp
      with "1.IH" have "pieces [] (scan fl (Plus (Cls P)) False q (dropWhile P xs)) =
          ([] @ hd (fields P (dropWhile P xs))) # tl (fields P (dropWhile P xs))" by blast
      then have "pieces [] (scan fl (Plus (Cls P)) False q (dropWhile P xs)) = fields P (dropWhile P xs)"
        using fields_not_Nil [of P "dropWhile P xs"] by simp
      with sc True Cons show ?thesis by (simp add: fields_yes)
    next
      case False
      have "length xs < length s" using Cons by simp
      with "1.IH" have "pieces (acc @ [x]) (scan fl (Plus (Cls P)) False (Some x) xs) =
          ((acc @ [x]) @ hd (fields P xs)) # tl (fields P xs)" by blast
      with False Cons show ?thesis by (simp add: scan_plus_cls_no fields_no)
    qed
  qed
qed

lemma re_split_plus_cls: "re_split fl (Plus (Cls P)) s = fields P s"
  using split_plus_cls_gen [of "[]" fl P False None s] fields_not_Nil [of P s]
  by (simp add: re_split_def)

section \<open>\<open>clean\<close> on plain text\<close>

lemma ci_eq_other: "c < 128 \<Longrightarrow> \<not> is_letter c \<Longrightarrow> ci_eq U c x \<longleftrightarrow> x = c"
  by (simp add: ci_eq_def)

lemma stuck_fm: "stuck fm_flags unmarked fm_rx"
  by (simp add: fm_rx_def ustr_def unmarked_def lit_eq_def fm_flags_def)

lemma stuck_link: "stuck no_flags unmarked link_rx"
  by (simp add: link_rx_def unmarked_def lit_eq_def no_flags_def)

lemma stuck_noise: "stuck (noise_flags U) unmarked noise_rx"
  by (simp add: noise_rx_def ustr_def unmarked_def lit_eq_def noise_flags_def
      ci_eq_other [of 64] ci_eq_other [of 58] is_letter_def is_upper_def)

lemma stuck_image: "stuck no_flags unmarked image_rx"
  by (simp add: image_rx_def unmarked_def lit_eq_def no_flags_def)

lemma stuck_symbol: "stuck no_flags unmarked symbol_rx"
  by (auto simp: symbol_rx_def unmarked_def)

lemma stuck_caption: "stuck (caption_flags U) (plain U) (caption_rx U)"
  by (simp add: caption_rx_def ustr_def plain_def)

lemma stuck_cutoff: "stuck (noise_flags U) unmarked cutoff_rx"
  by (simp add: cutoff_rx_def ustr_def unmarked_def lit_eq_def noise_flags_def
      ci_eq_other [of 10] is_letter_def is_upper_def)

lemma plain_markup_free:
  assumes "\<forall>c \<in> set s. plain U c"
  shows "markup_free U s"
proof -
  from assms have "\<forall>c \<in> set s. unmarked c" by (simp add: plain_def)
  with assms show ?thesis
    by (simp add: markup_free_def re_search_stuck [where A = unmarked]
        re_search_stuck [where A = "plain U"]
        stuck_fm stuck_link stuck_noise stuck_image stuck_symbol stuck_caption stuck_cutoff)
qed

lemma clean_markup_free: "markup_free U s \<Longrightarrow> clean U s = strip s"
  by (simp add: markup_free_def clean_def remove_frontmatter_def fix_links_def remove_noise_def
      remove_images_def remove_symbols_def remove_captions_def cut_references_def re_sub_no_match)

lemma clean_plain: "\<forall>c \<in> set s. plain U c \<Longrightarrow> clean U s = strip s"
  by (simp add: clean_markup_free plain_markup_free)


lemma dropWhile_rev_dropWhile:
  "dropWhile P (rev (dropWhile Q (rev (dropWhile P s)))) = rev (dropWhile Q (rev (dropWhile P s)))"
proof (cases "rev (dropWhile Q (rev (dropWhile P s)))")
  case Nil
  then show ?thesis by (simp only: dropWhile.simps)
next
  case (Cons x xs)
  let ?d = "dropWhile P s"
  have "rev ?d = takeWhile Q (rev ?d) @ dropWhile Q (rev ?d)" by simp
  then have "?d = rev (dropWhile Q (rev ?d)) @ rev (takeWhile Q (rev ?d))"
    by (metis rev_append rev_rev_ident)
  with Cons have "?d = x # (xs @ rev (takeWhile Q (rev ?d)))" by simp
  then have "\<not> P x" by (metis hd_dropWhile list.sel(1) list.distinct(1))
  with Cons show ?thesis by simp
qed

lemma lstrip_strip: "lstrip (strip s) = strip s"
  unfolding strip_def lstrip_def rstrip_def by (rule dropWhile_rev_dropWhile)


section \<open>Segmentation\<close>

lemma filter_dropWhile_neg: "filter (\<lambda>c. \<not> P c) (dropWhile P xs) = filter (\<lambda>c. \<not> P c) xs"
  by (induction xs) simp_all

lemma concat_fields: "concat (fields P s) = filter (\<lambda>c. \<not> P c) s"
proof (induction s rule: length_induct)
  case (1 s)
  show ?case
  proof (cases s)
    case Nil
    then show ?thesis by (simp add: fields_Nil)
  next
    case (Cons x xs)
    show ?thesis
    proof (cases "P x")
      case True
      have "length (dropWhile P xs) < length s"
        using Cons length_dropWhile_le [of P xs] by simp
      with "1.IH" have "concat (fields P (dropWhile P xs)) = filter (\<lambda>c. \<not> P c) (dropWhile P xs)"
        by blast
      with True Cons show ?thesis by (simp add: fields_yes filter_dropWhile_neg)
    next
      case False
      have "length xs < length s" using Cons by simp
      with "1.IH" have ih: "concat (fields P xs) = filter (\<lambda>c. \<not> P c) xs" by blast
      have "concat ((x # hd (fields P xs)) # tl (fields P xs)) = x # concat (fields P xs)"
        using fields_not_Nil [of P xs] by (cases "fields P xs") simp_all
      with False Cons ih show ?thesis by (simp add: fields_no)
    qed
  qed
qed

lemma length_fields: "length (fields P s) = Suc (length (runs P s))"
proof (induction s rule: length_induct)
  case (1 s)
  show ?case
  proof (cases s)
    case Nil
    then show ?thesis by (simp add: fields_Nil)
  next
    case (Cons x xs)
    show ?thesis
    proof (cases "P x")
      case True
      have "length (dropWhile P xs) < length s"
        using Cons length_dropWhile_le [of P xs] by simp
      with "1.IH" have "length (fields P (dropWhile P xs)) = Suc (length (runs P (dropWhile P xs)))"
        by blast
      with True Cons show ?thesis by (simp add: fields_yes)
    next
      case False
      have "length xs < length s" using Cons by simp
      with "1.IH" have "length (fields P xs) = Suc (length (runs P xs))" by blast
      with False Cons show ?thesis
        using fields_not_Nil [of P xs] by (cases "fields P xs") (simp_all add: fields_no)
    qed
  qed
qed

lemma terminator_rx_eq: "terminator_rx = Plus (Cls is_terminator)"
proof -
  have "is_terminator = (\<lambda>c. c = 46 \<or> c = 33 \<or> c = 63)"
    by (rule ext) (simp add: is_terminator_def)
  then show ?thesis by (simp add: terminator_rx_def)
qed

lemma sentences_of_fields:
  "sentences_of text = filter (\<lambda>s. 20 < length s) (map strip (fields is_terminator text))"
  by (simp add: sentences_of_def terminator_rx_eq re_split_plus_cls filter_map comp_def)

lemma sentences_of_long: "s \<in> set (sentences_of text) \<Longrightarrow> 20 < length s"
  by (simp add: sentences_of_fields)

lemma strip_decomp:
  "\<exists>pre suf. f = pre @ strip f @ suf \<and> list_all is_space pre \<and> list_all is_space suf"
proof -
  let ?d = "dropWhile is_space f"
  have "rev ?d = takeWhile is_space (rev ?d) @ dropWhile is_space (rev ?d)" by simp
  then have "rev (rev ?d) = rev (takeWhile is_space (rev ?d) @ dropWhile is_space (rev ?d))"
    by (rule arg_cong)
  then have d: "?d = rev (dropWhile is_space (rev ?d)) @ rev (takeWhile is_space (rev ?d))"
    by (simp only: rev_rev_ident rev_append)
  have "f = takeWhile is_space f @ ?d" by simp
  with d have "f = takeWhile is_space f @ strip f @ rev (takeWhile is_space (rev ?d))"
    by (simp add: strip_def lstrip_def rstrip_def)
  moreover have "list_all is_space (takeWhile is_space f)"
    by (simp add: list_all_iff) (metis set_takeWhileD)
  moreover have "list_all is_space (rev (takeWhile is_space (rev ?d)))"
    by (simp add: list_all_iff) (metis set_takeWhileD)
  ultimately show ?thesis by blast
qed

lemma strip_ends:
  assumes "strip f \<noteq> []"
  shows "\<not> is_space (hd (strip f)) \<and> \<not> is_space (last (strip f))"
proof -
  have "strip f = dropWhile is_space (strip f)"
    using lstrip_strip [of f] by (simp add: lstrip_def)
  with assms have "\<not> is_space (hd (strip f))" by (metis hd_dropWhile)
  moreover have "\<not> is_space (last (strip f))"
  proof -
    let ?r = "dropWhile is_space (rev (dropWhile is_space f))"
    have s: "strip f = rev ?r" by (simp add: strip_def lstrip_def rstrip_def)
    with assms have "?r \<noteq> []" by simp
    then have "\<not> is_space (hd ?r)" by (rule hd_dropWhile)
    moreover from \<open>?r \<noteq> []\<close> have "last (rev ?r) = hd ?r" by (simp add: last_rev)
    ultimately show ?thesis by (simp add: s)
  qed
  ultimately show ?thesis by simp
qed

text \<open>
  C9. The segmenter splits the clean text at the maximal runs of \<open>.\<close>, \<open>!\<close> and \<open>?\<close>
  (\<open>fields\<close>: one more piece than there are runs, and the pieces together are the text
  without its terminators), trims every piece and keeps, in the order of the text, those
  whose trimmed length is above 20; the empty text has no sentence. Trimming a fragment
  \<open>f\<close> takes whitespace, and nothing else, from its two ends until none is left there:
  \<open>f\<close> is the trimmed fragment between two runs of whitespace, and the trimmed fragment
  is empty or begins and ends with a character that is not whitespace.
\<close>

theorem sentences_of_spec:
  "sentences_of text = filter (\<lambda>s. 20 < length s) (map strip (fields is_terminator text)) \<and>
   concat (fields is_terminator text) = filter (\<lambda>c. \<not> is_terminator c) text \<and>
   length (fields is_terminator text) = Suc (length (runs is_terminator text)) \<and>
   sentences_of [] = [] \<and>
   (\<exists>pre suf. f = pre @ strip f @ suf \<and> list_all is_space pre \<and> list_all is_space suf) \<and>
   (strip f = [] \<or> (\<not> is_space (hd (strip f)) \<and> \<not> is_space (last (strip f))))"
proof -
  have "strip f = [] \<or> (\<not> is_space (hd (strip f)) \<and> \<not> is_space (last (strip f)))"
    using strip_ends [of f] by blast
  moreover have "sentences_of [] = []"
    by (simp add: sentences_of_fields fields_Nil strip_def lstrip_def rstrip_def)
  ultimately show ?thesis
    using strip_decomp [of f] by (simp only: sentences_of_fields concat_fields length_fields)
qed

section \<open>What \<open>summarize\<close> returns\<close>

lemma nothing_msg_not_Nil: "nothing_msg \<noteq> []"
  by (simp add: nothing_msg_def ustr_def)

lemma join_Nil_iff: "join (ustr '' '') xs = [] \<longleftrightarrow> xs = [] \<or> xs = [[]]"
  by (induction "ustr '' ''" xs rule: join.induct) (simp_all add: ustr_def)

lemma set_kw_ranked: "snd ` set (kw_ranked U it text sentences) = set sentences"
  by (simp add: kw_ranked_def kw_scored_def sorted_reverse_def image_image)

lemma slice_to_nonneg: "0 \<le> n \<Longrightarrow> slice_to s n = take (nat n) s"
  by (simp add: slice_to_def)

lemma summarize_cases:
  "summarize U it raw max_len =
     (if sentences_of (clean U raw) = [] then nothing_msg
      else if accumulate max_len 0 (kw_ranked U it (clean U raw) (sentences_of (clean U raw))) = []
      then slice_to (clean U raw) max_len @ [ellipsis]
      else join (ustr '' '')
             (accumulate max_len 0 (kw_ranked U it (clean U raw) (sentences_of (clean U raw)))))"
proof -
  let ?ss = "sentences_of (clean U raw)"
  let ?chosen = "accumulate max_len 0 (kw_ranked U it (clean U raw) ?ss)"
  have "?chosen \<noteq> [[]]"
  proof
    assume "?chosen = [[]]"
    then have "[] \<in> set ?chosen" by simp
    with accumulate_subset [of max_len 0 "kw_ranked U it (clean U raw) ?ss"]
    have "[] \<in> snd ` set (kw_ranked U it (clean U raw) ?ss)" by blast
    then have "[] \<in> set ?ss" by (simp only: set_kw_ranked)
    from sentences_of_long [OF this] show False by simp
  qed
  then show ?thesis
    by (simp add: summarize_def select_def Let_def join_Nil_iff)
qed

text \<open>
  C10. For every input and every budget, \<open>summarize\<close> returns a non-empty string: the
  no-sentences message, or the join of a non-empty selection of sentences, each of them a
  sentence of the clean text and longer than 20 characters, or the fallback
  \<open>text[:max_len]\<close> followed by the ellipsis U+2026.
\<close>

theorem summarize_nonempty:
  "summarize U it raw max_len \<noteq> [] \<and>
   (summarize U it raw max_len = nothing_msg \<or>
    (\<exists>chosen. chosen \<noteq> [] \<and> set chosen \<subseteq> set (sentences_of (clean U raw)) \<and>
       (\<forall>s \<in> set chosen. 20 < length s) \<and>
       summarize U it raw max_len = join (ustr '' '') chosen) \<or>
    summarize U it raw max_len = slice_to (clean U raw) max_len @ [ellipsis])"
proof -
  let ?ss = "sentences_of (clean U raw)"
  let ?chosen = "accumulate max_len 0 (kw_ranked U it (clean U raw) ?ss)"
  consider (none) "?ss = []" | (fallback) "?ss \<noteq> []" "?chosen = []"
    | (joined) "?ss \<noteq> []" "?chosen \<noteq> []" by blast
  then show ?thesis
  proof cases
    case none
    then show ?thesis by (simp add: summarize_cases nothing_msg_not_Nil)
  next
    case fallback
    then show ?thesis by (simp add: summarize_cases)
  next
    case joined
    have sub: "set ?chosen \<subseteq> set ?ss"
      using accumulate_subset [of max_len 0 "kw_ranked U it (clean U raw) ?ss"]
      by (simp only: set_kw_ranked)
    then have long: "\<forall>s \<in> set ?chosen. 20 < length s"
      using sentences_of_long by blast
    from joined have eq: "summarize U it raw max_len = join (ustr '' '') ?chosen"
      by (simp add: summarize_cases)
    have "join (ustr '' '') ?chosen \<noteq> []"
    proof
      assume "join (ustr '' '') ?chosen = []"
      with joined have "?chosen = [[]]" by (simp add: join_Nil_iff)
      with long show False by simp
    qed
    with eq joined sub long show ?thesis by metis
  qed
qed

lemma fields_no_terminator:
  assumes "\<forall>c \<in> set s. \<not> P c"
  shows "fields P s = [s]"
proof -
  from assms have d: "dropWhile (\<lambda>c. \<not> P c) s = []" by simp
  from assms have t: "takeWhile (\<lambda>c. \<not> P c) s = s" by simp
  have "fields P s =
      takeWhile (\<lambda>c. \<not> P c) s #
      (case dropWhile (\<lambda>c. \<not> P c) s of [] \<Rightarrow> [] | x # xs \<Rightarrow> fields P (dropWhile P xs))"
    by (rule fields.simps)
  also have "\<dots> = [s]" unfolding d t by simp
  finally show ?thesis .
qed

lemma dropWhile_replicate: "\<not> P c \<Longrightarrow> dropWhile P (replicate n c) = replicate n c"
  by (cases n) simp_all

lemma strip_replicate: "\<not> is_space c \<Longrightarrow> strip (replicate n c) = replicate n c"
  by (simp add: strip_def lstrip_def rstrip_def dropWhile_replicate)

lemma letters21_clean: "clean U (replicate 21 97) = replicate 21 97"
proof -
  have "\<forall>c \<in> set (replicate 21 (97::nat)). plain U c"
    by (simp add: plain_def unmarked_def is_digit_def)
  then have "clean U (replicate 21 97) = strip (replicate 21 97)" by (rule clean_plain)
  also have "\<dots> = replicate 21 97"
    by (rule strip_replicate) (simp add: is_space_def)
  finally show ?thesis .
qed

lemma letters21_sentences: "sentences_of (replicate 21 97) = [replicate 21 97]"
proof -
  have "fields is_terminator (replicate 21 (97::nat)) = [replicate 21 97]"
    by (rule fields_no_terminator) (simp add: is_terminator_def)
  moreover have "strip (replicate 21 (97::nat)) = replicate 21 97"
    by (rule strip_replicate) (simp add: is_space_def)
  ultimately show ?thesis by (simp add: sentences_of_fields)
qed

lemma kw_ranked_single: "kw_ranked U it text [s] = [(kw_score U (it (common_words U text)) s, s)]"
  by (simp add: kw_ranked_def kw_scored_def sorted_reverse_def)

theorem summarize_nonempty_witness:
  "summarize ascii_tables id (replicate 21 97) 450 \<noteq> [] \<and>
   [replicate 21 97] \<noteq> [] \<and>
   set [replicate 21 97] \<subseteq> set (sentences_of (clean ascii_tables (replicate 21 97))) \<and>
   20 < length (replicate 21 (97::nat)) \<and>
   summarize ascii_tables id (replicate 21 97) 450 = join (ustr '' '') [replicate 21 97]"
  using summarize_nonempty [of ascii_tables id "replicate 21 97" 450]
  by (simp add: summarize_cases letters21_clean letters21_sentences kw_ranked_single)

lemma accumulate_too_long:
  "\<forall>s \<in> snd ` set ranked. B < int (length s) \<Longrightarrow> 0 \<le> used \<Longrightarrow> accumulate B used ranked = []"
  by (cases ranked) auto

text \<open>
  C6. When the clean text has no sentence, \<open>summarize\<close> returns the 36 characters
  \<open>Nothing to summarize after cleaning.\<close> When it has sentences and the selection loop
  keeps none of them, \<open>summarize\<close> returns \<open>text[:max_len]\<close> of the clean text followed by
  the ellipsis U+2026 (code point 8230), which is not the empty string; for a budget
  \<open>max_len \<ge> 0\<close> (the budgets of the specification) that slice is the first \<open>max_len\<close>
  characters. The loop keeps nothing whenever the budget is smaller than every sentence,
  and so for the budget 0, every sentence being longer than 20 characters: then the
  result is the ellipsis alone.
\<close>

theorem summarize_edge_cases:
  "(sentences_of (clean U raw) = [] \<longrightarrow>
      summarize U it raw max_len = ustr ''Nothing to summarize after cleaning.'' \<and>
      length (summarize U it raw max_len) = 36) \<and>
   (sentences_of (clean U raw) \<noteq> [] \<and>
    accumulate max_len 0 (kw_ranked U it (clean U raw) (sentences_of (clean U raw))) = [] \<longrightarrow>
      summarize U it raw max_len = slice_to (clean U raw) max_len @ [8230] \<and>
      summarize U it raw max_len \<noteq> [] \<and>
      (0 \<le> max_len \<longrightarrow>
         summarize U it raw max_len = take (nat max_len) (clean U raw) @ [8230])) \<and>
   (sentences_of (clean U raw) \<noteq> [] \<and>
    (\<forall>s \<in> set (sentences_of (clean U raw)). max_len < int (length s)) \<longrightarrow>
      accumulate max_len 0 (kw_ranked U it (clean U raw) (sentences_of (clean U raw))) = []) \<and>
   (sentences_of (clean U raw) \<noteq> [] \<longrightarrow> summarize U it raw 0 = [8230])"
proof -
  let ?ss = "sentences_of (clean U raw)"
  have long: "\<forall>s \<in> set ?ss. max_len < int (length s) \<Longrightarrow>
      accumulate max_len 0 (kw_ranked U it (clean U raw) ?ss) = []" for max_len
    by (rule accumulate_too_long) (simp_all only: set_kw_ranked)
  have "\<forall>s \<in> set ?ss. (0::int) < int (length s)"
    using sentences_of_long [of _ "clean U raw"] by fastforce
  from long [OF this] have zero: "?ss \<noteq> [] \<Longrightarrow> summarize U it raw 0 = [8230]"
    by (simp add: summarize_cases slice_to_def ellipsis_def)
  have msg: "length (ustr ''Nothing to summarize after cleaning.'') = 36"
    by (simp add: ustr_def)
  show ?thesis
    using long [of max_len] zero
    by (simp add: summarize_cases slice_to_nonneg nothing_msg_def ellipsis_def msg)
qed

lemma empty_clean: "clean U [] = []"
proof -
  have "clean U [] = strip []" by (rule clean_plain) simp
  then show ?thesis by (simp add: strip_def lstrip_def rstrip_def)
qed

lemma empty_sentences: "sentences_of [] = []"
  by (simp add: sentences_of_fields fields_Nil strip_def lstrip_def rstrip_def)

theorem summarize_edge_cases_witness:
  "sentences_of (clean ascii_tables []) = [] \<and>
   summarize ascii_tables id [] 450 =
     [78, 111, 116, 104, 105, 110, 103, 32, 116, 111, 32, 115, 117, 109, 109, 97, 114, 105, 122,
      101, 32, 97, 102, 116, 101, 114, 32, 99, 108, 101, 97, 110, 105, 110, 103, 46] \<and>
   sentences_of (clean ascii_tables (replicate 21 97)) \<noteq> [] \<and>
   accumulate 5 0 (kw_ranked ascii_tables id (clean ascii_tables (replicate 21 97))
     (sentences_of (clean ascii_tables (replicate 21 97)))) = [] \<and>
   (0::int) \<le> 5 \<and>
   summarize ascii_tables id (replicate 21 97) 5 = replicate 5 97 @ [8230] \<and>
   list_all (\<lambda>s. (5::int) < int (length s)) (sentences_of (clean ascii_tables (replicate 21 97))) \<and>
   summarize ascii_tables id (replicate 21 97) 0 = [8230]"
  using summarize_edge_cases [of ascii_tables "[]" id 450]
    summarize_edge_cases [of ascii_tables "replicate 21 97" id 5]
  by (simp add: empty_clean empty_sentences letters21_clean letters21_sentences kw_ranked_single
      slice_to_def ustr_def)

section \<open>Evaluating the matcher on a given text\<close>

lemmas table_eval =
  is_space_def [of "numeral k" for k] is_digit_def [of U "numeral k" for U k]
  is_upper_def [of "numeral k" for k] is_letter_def [of "numeral k" for k]
  is_alnum_def [of U "numeral k" for U k] is_word_def [of U "numeral k" for U k]
  ascii_lower_def [of "numeral k" for k] ci_eq_def [of U "numeral c" "numeral x" for U c x]

lemmas matcher_eval =
  scan.simps ms.simps(8) ms.simps(9) match_here_def re_sub_def re_search_def at_bol_def lit_eq_def
  repl_empty_def repl_group_def ustr_def table_eval

section \<open>Segmentation of a sample\<close>

lemma sample_fields:
  "fields is_terminator (ustr ''  One long sentence is here.  short!? Another long sentence is here  '') =
     [ustr ''  One long sentence is here'', ustr ''  short'',
      ustr '' Another long sentence is here  '']"
  by (simp add: ustr_def fields_Nil fields_no_case fields_yes is_terminator_def)

lemma sample_strip: "strip [9, 32, 97, 32, 98, 10, 32] = [97, 32, 98]"
  by (simp add: strip_def lstrip_def rstrip_def table_eval)

theorem sentences_of_spec_witness:
  "sentences_of (ustr ''  One long sentence is here.  short!? Another long sentence is here  '') =
     [ustr ''One long sentence is here'', ustr ''Another long sentence is here''] \<and>
   fields is_terminator (ustr ''  One long sentence is here.  short!? Another long sentence is here  '') =
     [ustr ''  One long sentence is here'', ustr ''  short'',
      ustr '' Another long sentence is here  ''] \<and>
   length (runs is_terminator (ustr ''  One long sentence is here.  short!? Another long sentence is here  '')) = 2 \<and>
   strip [9, 32, 97, 32, 98, 10, 32] = [97, 32, 98] \<and>
   [9, 32, 97, 32, 98, 10, 32] = [9, 32] @ strip [9, 32, 97, 32, 98, 10, 32] @ [10, 32] \<and>
   list_all is_space [9, 32] \<and> list_all is_space [10, 32] \<and>
   \<not> is_space (hd (strip [9, 32, 97, 32, 98, 10, 32])) \<and> \<not> is_space (last (strip [9, 32, 97, 32, 98, 10, 32]))"
proof -
  from sentences_of_spec [of "ustr ''  One long sentence is here.  short!? Another long sentence is here  ''" "[9, 32, 97, 32, 98, 10, 32]"]
  have s: "sentences_of (ustr ''  One long sentence is here.  short!? Another long sentence is here  '') =
      filter (\<lambda>s. 20 < length s) (map strip (fields is_terminator (ustr ''  One long sentence is here.  short!? Another long sentence is here  '')))"
    and l: "length (fields is_terminator (ustr ''  One long sentence is here.  short!? Another long sentence is here  '')) = Suc (length (runs is_terminator (ustr ''  One long sentence is here.  short!? Another long sentence is here  '')))"
    by blast+
  have "sentences_of (ustr ''  One long sentence is here.  short!? Another long sentence is here  '') =
     [ustr ''One long sentence is here'', ustr ''Another long sentence is here'']"
    unfolding s sample_fields
    by (simp add: strip_def lstrip_def rstrip_def ustr_def table_eval)
  moreover from l have "length (runs is_terminator (ustr ''  One long sentence is here.  short!? Another long sentence is here  '')) = 2"
    unfolding sample_fields by simp
  moreover have "list_all is_space [9, 32] \<and> list_all is_space [10, 32]"
    by (simp add: table_eval)
  moreover have "\<not> is_space (hd (strip [9, 32, 97, 32, 98, 10, 32])) \<and> \<not> is_space (last (strip [9, 32, 97, 32, 98, 10, 32]))"
    unfolding sample_strip by (simp add: table_eval)
  ultimately show ?thesis
    using sample_fields by (simp only: sample_strip) simp
qed

section \<open>The frontmatter step\<close>

text \<open>
  C3. \<open>re.sub\<close> replaces every match, and \<open>^\<close> under \<open>(?m)\<close> matches at every line
  start: in the text \<open>---\nt\n---\nA\n---\nB\n---\nC\<close> the step removes the leading block
  and also the later block \<open>---\nB\n---\<close>, which the claim says it leaves alone.
\<close>

theorem remove_frontmatter_later_block:
  "remove_frontmatter (ustr ''---'' @ [10] @ ustr ''t'' @ [10] @ ustr ''---'' @ [10] @ ustr ''A'' @ [10] @
                       ustr ''---'' @ [10] @ ustr ''B'' @ [10] @ ustr ''---'' @ [10] @ ustr ''C'')
   = [10] @ ustr ''A'' @ [10, 10] @ ustr ''C''"
  by (simp add: remove_frontmatter_def fm_rx_def fm_flags_def matcher_eval)

section \<open>The empty document\<close>

lemma findall_words: "re_findall fl (word_rx U) s = runs (is_word U) s"
  by (simp add: word_rx_def re_findall_plus_cls)

lemma compression_empty: "compression_of nothing_msg [] = ustr ''3600.0%''"
  by (simp add: compression_of_def nothing_msg_def ustr_def to_double_def scaled_def percent1_def
      round_even_def Let_def)

lemma summarize_empty: "summarize U it [] max_len = nothing_msg"
  by (simp add: summarize_cases empty_clean empty_sentences)

text \<open>
  C2, as the code has it. For the empty input the summary is the message, of 36
  characters, \<open>original_words\<close> is 0, and the compression is \<open>36 / max(0, 1)\<close> as a
  percentage with one decimal: \<open>3600.0%\<close>.
\<close>

theorem run_empty:
  "summary (run U it []) = nothing_msg \<and>
   length nothing_msg = 36 \<and>
   original_words (metrics (run U it [])) = 0 \<and>
   compression (metrics (run U it [])) = compression_of nothing_msg [] \<and>
   compression (metrics (run U it [])) = ustr ''3600.0%''"
  by (simp add: run_def Let_def summarize_empty findall_words compression_empty)
     (simp add: nothing_msg_def ustr_def)

text \<open>C2 as it is stated fails: the compression of the empty input is not \<open>0.0%\<close>.\<close>

theorem run_empty_counterexample:
  "\<not> (summary (run ascii_tables id []) = nothing_msg \<and>
      original_words (metrics (run ascii_tables id [])) = 0 \<and>
      compression (metrics (run ascii_tables id [])) = ustr ''0.0%'')"
  by (simp add: run_def Let_def summarize_empty findall_words compression_empty)
     (simp add: ustr_def)

section \<open>Idempotence of \<open>clean\<close>\<close>














section \<open>Counting and ranking\<close>

lemma keys_count_add:
  "map fst (count_add w d) = (if w \<in> fst ` set d then map fst d else map fst d @ [w])"
  by (induction d) (auto split: if_splits)

lemma map_of_count_add:
  "map_of (count_add w d) = (map_of d)(w \<mapsto> (case map_of d w of None \<Rightarrow> 1 | Some c \<Rightarrow> Suc c))"
  by (induction d) (auto simp: fun_eq_iff)

lemma Counter_snoc: "Counter (ws @ [w]) = count_add w (Counter ws)"
  by (simp add: Counter_def)

lemma Counter_Nil: "Counter [] = []"
  by (simp add: Counter_def)

lemma keys_Counter: "set (map fst (Counter ws)) = set ws"
  by (induction ws rule: rev_induct) (auto simp: Counter_Nil Counter_snoc keys_count_add)

lemma distinct_Counter: "distinct (map fst (Counter ws))"
proof (induction ws rule: rev_induct)
  case Nil
  then show ?case by (simp add: Counter_Nil)
next
  case (snoc w ws)
  then show ?case by (auto simp: Counter_snoc keys_count_add)
qed

lemma map_of_Counter:
  "map_of (Counter ws) k = (if k \<in> set ws then Some (count_list ws k) else None)"
proof (induction ws rule: rev_induct)
  case Nil
  then show ?case by (simp add: Counter_Nil)
next
  case (snoc w ws)
  then show ?case by (auto simp: Counter_snoc map_of_count_add)
qed

lemma Counter_count: "(k, c) \<in> set (Counter ws) \<Longrightarrow> c = count_list ws k"
proof -
  assume "(k, c) \<in> set (Counter ws)"
  with distinct_Counter [of ws] have "map_of (Counter ws) k = Some c" by simp
  then show ?thesis by (simp add: map_of_Counter split: if_splits)
qed

lemma first_index_snoc_old: "a \<in> set ws \<Longrightarrow> first_index (ws @ [w]) a = first_index ws a"
  by (simp add: first_index_def)

lemma first_index_less: "a \<in> set ws \<Longrightarrow> first_index ws a < length ws"
  unfolding first_index_def by (induction ws) auto

lemma first_index_new: "w \<notin> set ws \<Longrightarrow> first_index (ws @ [w]) w = length ws"
  unfolding first_index_def by (induction ws) auto

lemma Counter_order:
  "sorted_wrt (\<lambda>a b. first_index ws a < first_index ws b) (map fst (Counter ws))"
proof (induction ws rule: rev_induct)
  case Nil
  then show ?case by (simp add: Counter_Nil)
next
  case (snoc w ws)
  let ?ks = "map fst (Counter ws)"
  have old: "sorted_wrt (\<lambda>a b. first_index (ws @ [w]) a < first_index (ws @ [w]) b) ?ks"
  proof (rule sorted_wrt_mono_rel [OF _ snoc.IH])
    fix a b assume "a \<in> set ?ks" "b \<in> set ?ks" "first_index ws a < first_index ws b"
    then show "first_index (ws @ [w]) a < first_index (ws @ [w]) b"
      by (simp add: keys_Counter first_index_snoc_old del: set_map)
  qed
  show ?case
  proof (cases "w \<in> set ws")
    case True
    then have "w \<in> fst ` set (Counter ws)" using keys_Counter [of ws] by simp
    with old show ?thesis by (simp add: Counter_snoc keys_count_add)
  next
    case False
    then have nk: "w \<notin> fst ` set (Counter ws)" using keys_Counter [of ws] by simp
    have "first_index (ws @ [w]) a < first_index (ws @ [w]) w" if "a \<in> set ?ks" for a
    proof -
      from that have "a \<in> set ws" by (simp only: keys_Counter)
      then show ?thesis
        using False by (simp add: first_index_snoc_old first_index_new first_index_less)
    qed
    with old nk show ?thesis
      by (simp add: Counter_snoc keys_count_add sorted_wrt_append del: set_map)
  qed
qed

lemma insort_key_stable:
  assumes "sorted_wrt (\<lambda>a b. key a < key b \<or> (key a = key b \<and> Q a b)) ys"
    and "\<forall>y \<in> set ys. Q x y"
  shows "sorted_wrt (\<lambda>a b. key a < key b \<or> (key a = key b \<and> Q a b)) (insort_key key x ys)"
  using assms
proof (induction ys)
  case Nil
  then show ?case by simp
next
  case (Cons y ys)
  show ?case
  proof (cases "key x \<le> key y")
    case True
    have "key x < key z \<or> (key x = key z \<and> Q x z)" if "z \<in> set (y # ys)" for z
    proof -
      from Cons.prems(1) that have "key y \<le> key z" by auto
      with True have "key x \<le> key z" by simp
      moreover from Cons.prems(2) that have "Q x z" by auto
      ultimately show ?thesis by auto
    qed
    with Cons.prems(1) True show ?thesis by simp
  next
    case False
    then have lt: "key y < key x" by simp
    from Cons have "sorted_wrt (\<lambda>a b. key a < key b \<or> (key a = key b \<and> Q a b)) (insort_key key x ys)"
      by simp
    with Cons.prems(1) False lt show ?thesis by (auto simp: set_insort_key)
  qed
qed

lemma sort_key_stable_order:
  "sorted_wrt Q xs \<Longrightarrow>
   sorted_wrt (\<lambda>a b. key a < key b \<or> (key a = key b \<and> Q a b)) (sort_key key xs)"
proof (induction xs)
  case Nil
  then show ?case by simp
next
  case (Cons x xs)
  then have "sorted_wrt (\<lambda>a b. key a < key b \<or> (key a = key b \<and> Q a b)) (sort_key key xs)"
    and "\<forall>y \<in> set (sort_key key xs). Q x y" by simp_all
  then show ?case by (simp add: insort_key_stable)
qed

section \<open>\<open>most_common\<close>\<close>

lemma most_common_sorted:
  "sorted_wrt (\<lambda>a b. snd b < snd a \<or> (snd a = snd b \<and> Q a b))
     (sort_key (\<lambda>kc. - int (snd kc)) d)" if "sorted_wrt Q d"
proof -
  from sort_key_stable_order [OF that, of "\<lambda>kc. - int (snd kc)"]
  have "sorted_wrt (\<lambda>a b. - int (snd a) < - int (snd b) \<or> (- int (snd a) = - int (snd b) \<and> Q a b))
     (sort_key (\<lambda>kc. - int (snd kc)) d)" .
  then show ?thesis by (rule sorted_wrt_mono_rel [rotated]) auto
qed

lemma set_most_common: "set (most_common n d) \<subseteq> set d"
  unfolding most_common_def by (metis set_sort set_take_subset)

lemma distinct_most_common:
  "distinct (map fst d) \<Longrightarrow> distinct (map fst (most_common n d))"
proof -
  assume "distinct (map fst d)"
  then have "distinct (map fst (sort_key (\<lambda>kc. - int (snd kc)) d))"
    by (metis distinct_map distinct_sort set_sort)
  then show ?thesis
    unfolding most_common_def by (simp add: take_map [symmetric])
qed

lemma length_most_common: "length (most_common n d) = min (nat n) (length d)"
  by (simp add: most_common_def)

lemma most_common_top:
  assumes "x \<in> set (most_common n d)" and "y \<in> set d" and "y \<notin> set (most_common n d)"
  shows "snd y \<le> snd x"
proof -
  let ?S = "sort_key (\<lambda>kc. - int (snd kc)) d"
  have "sorted (map (\<lambda>kc. - int (snd kc)) ?S)" by (rule sorted_sort_key)
  then have "sorted (map (\<lambda>kc. - int (snd kc)) (take (nat n) ?S) @
                     map (\<lambda>kc. - int (snd kc)) (drop (nat n) ?S))"
    by (metis append_take_drop_id map_append)
  then have ord: "\<forall>a \<in> set (take (nat n) ?S). \<forall>b \<in> set (drop (nat n) ?S).
      - int (snd a) \<le> - int (snd b)"
    by (auto simp: sorted_append)
  from assms(2) have "y \<in> set (take (nat n) ?S @ drop (nat n) ?S)" by simp
  with assms(3) have "y \<in> set (drop (nat n) ?S)"
    unfolding most_common_def set_append by blast
  with ord assms(1) show ?thesis unfolding most_common_def by fastforce
qed

section \<open>Lowercasing\<close>

lemma concat_singletons_map: "concat (map (\<lambda>c. [g c]) s) = map g s"
  by (induction s) simp_all

lemma map_nth_fun: "map (\<lambda>i. f (s ! i)) [0..<length s] = map f s"
  by (rule nth_equalityI) simp_all

lemma lower_ascii:
  assumes "list_all (\<lambda>c. c < 128) s"
  shows "lower U s = map ascii_lower s"
proof -
  from assms have
    "map (\<lambda>i. if s ! i < 128 then [ascii_lower (s ! i)] else uni_lower U s i) [0..<length s] =
     map (\<lambda>i. [ascii_lower (s ! i)]) [0..<length s]"
    by (simp add: list_all_length)
  also have "\<dots> = map (\<lambda>c. [ascii_lower c]) s" by (rule map_nth_fun)
  finally show ?thesis by (simp add: lower_def concat_singletons_map)
qed

lemma lower_ascii_letters:
  "list_all (\<lambda>c. c < 128) s \<Longrightarrow>
   lower U s = map (\<lambda>c. if 65 \<le> c \<and> c \<le> 90 then c + 32 else c) s"
  by (simp add: lower_ascii ascii_lower_def is_upper_def)

section \<open>The ranking by frequency\<close>

lemma ranking_ordered:
  "sorted_wrt (\<lambda>a b. count_list ws b < count_list ws a \<or>
                       (count_list ws a = count_list ws b \<and> first_index ws a < first_index ws b))
     (map fst (sort_key (\<lambda>kc. - int (snd kc)) (Counter ws)))"
proof -
  let ?d = "Counter ws"
  let ?Q = "\<lambda>x y. first_index ws (fst x) < first_index ws (fst y)"
  let ?S = "sort_key (\<lambda>kc. - int (snd kc)) ?d"
  have "sorted_wrt ?Q ?d" using Counter_order [of ws] by (simp add: sorted_wrt_map)
  then have "sorted_wrt (\<lambda>a b. snd b < snd a \<or> (snd a = snd b \<and> ?Q a b)) ?S"
    by (rule most_common_sorted)
  then have "sorted_wrt (\<lambda>x y. count_list ws (fst y) < count_list ws (fst x) \<or>
      (count_list ws (fst x) = count_list ws (fst y) \<and> ?Q x y)) ?S"
  proof (rule sorted_wrt_mono_rel [rotated])
    fix x y assume x: "x \<in> set ?S" and y: "y \<in> set ?S"
      and r: "snd y < snd x \<or> (snd x = snd y \<and> ?Q x y)"
    from x have "snd x = count_list ws (fst x)" using Counter_count [of "fst x" "snd x" ws] by simp
    moreover from y have "snd y = count_list ws (fst y)"
      using Counter_count [of "fst y" "snd y" ws] by simp
    ultimately show "count_list ws (fst y) < count_list ws (fst x) \<or>
      (count_list ws (fst x) = count_list ws (fst y) \<and> ?Q x y)" using r by simp
  qed
  then show ?thesis by (simp add: sorted_wrt_map)
qed

lemma ranking_distinct: "distinct (map fst (sort_key (\<lambda>kc. - int (snd kc)) (Counter ws)))"
  using distinct_Counter [of ws] by (metis distinct_map distinct_sort set_sort)

lemma ranking_set: "set (map fst (sort_key (\<lambda>kc. - int (snd kc)) (Counter ws))) = set ws"
  using keys_Counter [of ws] by simp

lemma most_common_take:
  "map fst (most_common n (Counter ws)) =
   take (nat n) (map fst (sort_key (\<lambda>kc. - int (snd kc)) (Counter ws)))"
  by (simp add: most_common_def take_map)

text \<open>
  The keys of \<open>Counter(ws).most_common(n)\<close> are the first \<open>n\<close> entries of the ranking of
  the distinct elements of \<open>ws\<close> by falling count, elements of equal count in the order
  of their first occurrence. That order is total on the elements of \<open>ws\<close>, so the ranking
  and its first \<open>n\<close> entries are determined by \<open>ws\<close>.
\<close>

lemma most_common_ranking:
  "\<exists>ranking. distinct ranking \<and> set ranking = set ws \<and>
      sorted_wrt (\<lambda>a b. count_list ws b < count_list ws a \<or>
                         (count_list ws a = count_list ws b \<and>
                          first_index ws a < first_index ws b)) ranking \<and>
      map fst (most_common n (Counter ws)) = take (nat n) ranking"
  using ranking_distinct [of ws] ranking_set [of ws] ranking_ordered [of ws]
    most_common_take [of n ws]
  by blast

lemma take_before_rest:
  assumes "sorted_wrt R xs" and "w \<in> set (take k xs)" and "v \<in> set xs" and "v \<notin> set (take k xs)"
  shows "R w v"
proof -
  from assms(1) have "sorted_wrt R (take k xs @ drop k xs)" by simp
  then have ord: "\<forall>a \<in> set (take k xs). \<forall>b \<in> set (drop k xs). R a b"
    by (simp only: sorted_wrt_append) blast
  from assms(3) have "v \<in> set (take k xs @ drop k xs)" by simp
  with assms(4) have "v \<in> set (drop k xs)" by (simp only: set_append) blast
  with ord assms(2) show ?thesis by blast
qed

lemma most_common_before_rest:
  assumes "w \<in> set (map fst (most_common n (Counter ws)))"
    and "v \<in> set ws" and "v \<notin> set (map fst (most_common n (Counter ws)))"
  shows "count_list ws v < count_list ws w \<or>
         (count_list ws w = count_list ws v \<and> first_index ws w < first_index ws v)"
proof -
  let ?r = "map fst (sort_key (\<lambda>kc. - int (snd kc)) (Counter ws))"
  from assms(2) have v: "v \<in> set ?r" by (simp only: ranking_set)
  have w: "w \<in> set (take (nat n) ?r)" using assms(1) unfolding most_common_take .
  have nv: "v \<notin> set (take (nat n) ?r)" using assms(3) unfolding most_common_take .
  from ranking_ordered w v nv show ?thesis by (rule take_before_rest)
qed

section \<open>Tags\<close>

lemma candidates_runs:
  "candidates U text =
     filter (\<lambda>w. w \<notin> set stop \<and> 3 < length w) (runs (is_word U) (lower U text))"
  by (simp add: candidates_def findall_words)

lemma tag_ordered:
  "sorted_wrt (\<lambda>a b. count_list ws b < count_list ws a \<or>
                       (count_list ws a = count_list ws b \<and> first_index ws a < first_index ws b))
     (map fst (most_common n (Counter ws)))"
  unfolding most_common_take using ranking_ordered [of ws] by (rule sorted_wrt_take)

lemma top_words_distinct: "distinct (map fst (most_common n (Counter ws)))"
  by (rule distinct_most_common) (rule distinct_Counter)

lemma top_words_subset: "set (map fst (most_common n (Counter ws))) \<subseteq> set ws"
  using set_most_common [of n "Counter ws"] keys_Counter [of ws] by auto

lemma length_Counter: "length (Counter ws) = card (set ws)"
  by (metis distinct_Counter distinct_card keys_Counter length_map)

lemma top_words_length:
  "length (map fst (most_common n (Counter ws))) = min (nat n) (card (set ws))"
  by (simp add: length_most_common length_Counter)

lemma top_words_most_frequent:
  assumes "w \<in> set (map fst (most_common n (Counter ws)))"
    and "v \<in> set ws" and "v \<notin> set (map fst (most_common n (Counter ws)))"
  shows "count_list ws v \<le> count_list ws w"
  using most_common_before_rest [OF assms] by auto

lemma min_count_bound: "l = min (nat n) c \<Longrightarrow> 0 \<le> n \<longrightarrow> int l \<le> n"
  by (metis int_nat_eq min.cobounded1 of_nat_le_iff)

lemma tag_tokens:
  "\<forall>w \<in> set (tag U text topn).
      w \<in> set (runs (is_word U) (lower U text)) \<and> 3 < length w \<and> w \<notin> set stop"
proof
  fix w assume "w \<in> set (tag U text topn)"
  with top_words_subset [of topn "candidates U text"] have "w \<in> set (candidates U text)"
    unfolding tag_def by blast
  then show "w \<in> set (runs (is_word U) (lower U text)) \<and> 3 < length w \<and> w \<notin> set stop"
    unfolding candidates_runs by simp
qed

lemma tag_before_rest:
  "\<forall>w \<in> set (tag U text topn). \<forall>v \<in> set (candidates U text) - set (tag U text topn).
      count_list (candidates U text) v < count_list (candidates U text) w \<or>
      (count_list (candidates U text) w = count_list (candidates U text) v \<and>
       first_index (candidates U text) w < first_index (candidates U text) v)"
proof (intro ballI)
  fix w v assume w: "w \<in> set (tag U text topn)"
    and v: "v \<in> set (candidates U text) - set (tag U text topn)"
  from v have v1: "v \<in> set (candidates U text)" and v2: "v \<notin> set (tag U text topn)" by blast+
  from w v1 v2 show "count_list (candidates U text) v < count_list (candidates U text) w \<or>
      (count_list (candidates U text) w = count_list (candidates U text) v \<and>
       first_index (candidates U text) w < first_index (candidates U text) v)"
    unfolding tag_def by (rule most_common_before_rest)
qed

lemma results_x_lower:
  "lower U (ustr ''results_x results_x'') = ustr ''results_x results_x''"
  by (simp add: lower_ascii ustr_def table_eval)

lemma results_x_candidates:
  "candidates U (ustr ''results_x results_x'') = [ustr ''results_x'', ustr ''results_x'']"
  unfolding candidates_runs results_x_lower by (simp add: ustr_def table_eval stop_def)

text \<open>
  C8 as it is stated fails. The tokens are the matches of \<open>\w+\<close>, and \<open>\w\<close> matches the
  underscore: the only tag of \<open>results_x results_x\<close> is \<open>results_x\<close>, which is no run of
  alphanumeric characters. The alphanumeric runs of the text are \<open>results\<close>, a stop word,
  and \<open>x\<close>, which is too short, so by the claim there would be no tag at all.
\<close>

theorem tag_spec_counterexample:
  "tag ascii_tables (ustr ''results_x results_x'') 8 = [ustr ''results_x''] \<and>
   runs (is_alnum ascii_tables) (lower ascii_tables (ustr ''results_x results_x'')) =
     [ustr ''results'', ustr ''x'', ustr ''results'', ustr ''x''] \<and>
   ustr ''results_x'' \<notin>
     set (runs (is_alnum ascii_tables) (lower ascii_tables (ustr ''results_x results_x''))) \<and>
   ustr ''results'' \<in> set stop \<and> length (ustr ''x'') = 1"
proof -
  have "tag ascii_tables (ustr ''results_x results_x'') 8 = [ustr ''results_x'']"
    unfolding tag_def results_x_candidates by (simp add: Counter_def most_common_def)
  moreover have "runs (is_alnum ascii_tables) (lower ascii_tables (ustr ''results_x results_x'')) =
     [ustr ''results'', ustr ''x'', ustr ''results'', ustr ''x'']"
    unfolding results_x_lower by (simp add: ustr_def table_eval)
  ultimately show ?thesis by (simp add: stop_def) (simp add: ustr_def)
qed

text \<open>
  C8, as the code has it. The tokens are the maximal runs of word characters
  (alphanumeric characters and the underscore, what \<open>\w+\<close> matches) of the lowercased
  text; lowercasing a text of ASCII characters replaces \<open>A\<close> to \<open>Z\<close> by \<open>a\<close> to \<open>z\<close> and
  leaves every other character. The candidates are the tokens longer than 3 that are
  none of the 58 stop words. For every text and every \<open>topn\<close> the tags are the first
  \<open>topn\<close> entries of the ranking of the distinct candidates by falling frequency, ties in
  the order of first occurrence: that fixes the tags, also among candidates tied at the
  cut-off. So the tags are distinct, there are \<open>min(max(topn, 0), number of distinct
  candidates)\<close> of them (at most \<open>topn\<close> for a count \<open>topn \<ge> 0\<close>), each is a lowercased
  token longer than 3 and no stop word, and a candidate left out is less frequent than
  every tag, or as frequent and first met later.
\<close>

theorem tag_spec:
  "stop = map ustr
       [''the'', ''and'', ''for'', ''with'', ''this'', ''that'', ''from'', ''were'', ''been'',
        ''have'', ''using'', ''used'', ''which'', ''their'', ''they'', ''will'', ''would'',
        ''there'', ''these'', ''about'', ''when'', ''what'', ''where'', ''is'', ''are'', ''was'',
        ''not'', ''but'', ''all'', ''into'', ''can'', ''has'', ''more'', ''one'', ''its'', ''out'',
        ''also'', ''than'', ''other'', ''some'', ''very'', ''only'', ''time'', ''just'', ''even'',
        ''most'', ''like'', ''may'', ''such'', ''each'', ''new'', ''based'', ''our'', ''results'',
        ''study'', ''method'', ''approach'', ''proposed''] \<and>
   candidates U text =
     filter (\<lambda>w. w \<notin> set stop \<and> 3 < length w) (runs (is_word U) (lower U text)) \<and>
   (\<forall>c. is_word U c \<longleftrightarrow> is_alnum U c \<or> c = 95) \<and>
   (list_all (\<lambda>c. c < 128) text \<longrightarrow>
      lower U text = map (\<lambda>c. if 65 \<le> c \<and> c \<le> 90 then c + 32 else c) text) \<and>
   (\<exists>ranking. distinct ranking \<and> set ranking = set (candidates U text) \<and>
      sorted_wrt (\<lambda>a b. count_list (candidates U text) b < count_list (candidates U text) a \<or>
                      (count_list (candidates U text) a = count_list (candidates U text) b \<and>
                       first_index (candidates U text) a < first_index (candidates U text) b)) ranking \<and>
      tag U text topn = take (nat topn) ranking) \<and>
   distinct (tag U text topn) \<and>
   length (tag U text topn) = min (nat topn) (card (set (candidates U text))) \<and>
   (0 \<le> topn \<longrightarrow> int (length (tag U text topn)) \<le> topn) \<and>
   (\<forall>w \<in> set (tag U text topn).
      w \<in> set (runs (is_word U) (lower U text)) \<and> 3 < length w \<and> w \<notin> set stop) \<and>
   sorted_wrt (\<lambda>a b. count_list (candidates U text) b < count_list (candidates U text) a \<or>
                      (count_list (candidates U text) a = count_list (candidates U text) b \<and>
                       first_index (candidates U text) a < first_index (candidates U text) b))
     (tag U text topn) \<and>
   (\<forall>w \<in> set (tag U text topn). \<forall>v \<in> set (candidates U text) - set (tag U text topn).
      count_list (candidates U text) v < count_list (candidates U text) w \<or>
      (count_list (candidates U text) w = count_list (candidates U text) v \<and>
       first_index (candidates U text) w < first_index (candidates U text) v))"
proof (intro conjI)
  show "stop = map ustr
       [''the'', ''and'', ''for'', ''with'', ''this'', ''that'', ''from'', ''were'', ''been'',
        ''have'', ''using'', ''used'', ''which'', ''their'', ''they'', ''will'', ''would'',
        ''there'', ''these'', ''about'', ''when'', ''what'', ''where'', ''is'', ''are'', ''was'',
        ''not'', ''but'', ''all'', ''into'', ''can'', ''has'', ''more'', ''one'', ''its'', ''out'',
        ''also'', ''than'', ''other'', ''some'', ''very'', ''only'', ''time'', ''just'', ''even'',
        ''most'', ''like'', ''may'', ''such'', ''each'', ''new'', ''based'', ''our'', ''results'',
        ''study'', ''method'', ''approach'', ''proposed'']"
    by (rule stop_def)
  show "candidates U text =
     filter (\<lambda>w. w \<notin> set stop \<and> 3 < length w) (runs (is_word U) (lower U text))"
    by (rule candidates_runs)
  show "\<forall>c. is_word U c \<longleftrightarrow> is_alnum U c \<or> c = 95" by (simp add: is_word_def)
  show "list_all (\<lambda>c. c < 128) text \<longrightarrow>
      lower U text = map (\<lambda>c. if 65 \<le> c \<and> c \<le> 90 then c + 32 else c) text"
    using lower_ascii_letters [of "text" U] by blast
  show "\<exists>ranking. distinct ranking \<and> set ranking = set (candidates U text) \<and>
      sorted_wrt (\<lambda>a b. count_list (candidates U text) b < count_list (candidates U text) a \<or>
                      (count_list (candidates U text) a = count_list (candidates U text) b \<and>
                       first_index (candidates U text) a < first_index (candidates U text) b)) ranking \<and>
      tag U text topn = take (nat topn) ranking"
    unfolding tag_def by (rule most_common_ranking)
  show "distinct (tag U text topn)" unfolding tag_def by (rule top_words_distinct)
  show len: "length (tag U text topn) = min (nat topn) (card (set (candidates U text)))"
    unfolding tag_def by (rule top_words_length)
  show "0 \<le> topn \<longrightarrow> int (length (tag U text topn)) \<le> topn"
    using len by (rule min_count_bound)
  show "\<forall>w \<in> set (tag U text topn).
      w \<in> set (runs (is_word U) (lower U text)) \<and> 3 < length w \<and> w \<notin> set stop"
    by (rule tag_tokens)
  show "sorted_wrt (\<lambda>a b. count_list (candidates U text) b < count_list (candidates U text) a \<or>
                      (count_list (candidates U text) a = count_list (candidates U text) b \<and>
                       first_index (candidates U text) a < first_index (candidates U text) b))
     (tag U text topn)" unfolding tag_def by (rule tag_ordered)
  show "\<forall>w \<in> set (tag U text topn). \<forall>v \<in> set (candidates U text) - set (tag U text topn).
      count_list (candidates U text) v < count_list (candidates U text) w \<or>
      (count_list (candidates U text) w = count_list (candidates U text) v \<and>
       first_index (candidates U text) w < first_index (candidates U text) v)"
    by (rule tag_before_rest)
qed

lemma sample_ascii: "list_all (\<lambda>c. c < 128) (ustr ''Results beta_x RESULTS gamma results Gamma Beta_X delta the'')"
  by (simp add: ustr_def)

lemma sample_lower:
  "lower U (ustr ''Results beta_x RESULTS gamma results Gamma Beta_X delta the'') =
     ustr ''results beta_x results gamma results gamma beta_x delta the''"
  by (simp add: lower_ascii ustr_def table_eval)

lemma sample_candidates:
  "candidates U (ustr ''Results beta_x RESULTS gamma results Gamma Beta_X delta the'') =
     map ustr [''beta_x'', ''gamma'', ''gamma'', ''beta_x'', ''delta'']"
  unfolding candidates_runs sample_lower by (simp add: ustr_def table_eval stop_def)

lemma sample_tag:
  "tag U (ustr ''Results beta_x RESULTS gamma results Gamma Beta_X delta the'') 1 = [ustr ''beta_x'']"
  unfolding tag_def sample_candidates by (simp add: Counter_def most_common_def ustr_def)

theorem tag_spec_witness:
  "(0::int) \<le> 1 \<and>
   list_all (\<lambda>c. c < 128) (ustr ''Results beta_x RESULTS gamma results Gamma Beta_X delta the'') \<and>
   lower ascii_tables (ustr ''Results beta_x RESULTS gamma results Gamma Beta_X delta the'') =
     ustr ''results beta_x results gamma results gamma beta_x delta the'' \<and>
   candidates ascii_tables (ustr ''Results beta_x RESULTS gamma results Gamma Beta_X delta the'') =
     map ustr [''beta_x'', ''gamma'', ''gamma'', ''beta_x'', ''delta''] \<and>
   tag ascii_tables (ustr ''Results beta_x RESULTS gamma results Gamma Beta_X delta the'') 1 = [ustr ''beta_x''] \<and>
   ustr ''beta_x'' \<in> set (tag ascii_tables (ustr ''Results beta_x RESULTS gamma results Gamma Beta_X delta the'') 1) \<and>
   ustr ''gamma'' \<in> set (candidates ascii_tables (ustr ''Results beta_x RESULTS gamma results Gamma Beta_X delta the'')) -
     set (tag ascii_tables (ustr ''Results beta_x RESULTS gamma results Gamma Beta_X delta the'') 1) \<and>
   count_list (candidates ascii_tables (ustr ''Results beta_x RESULTS gamma results Gamma Beta_X delta the'')) (ustr ''beta_x'') =
     count_list (candidates ascii_tables (ustr ''Results beta_x RESULTS gamma results Gamma Beta_X delta the'')) (ustr ''gamma'') \<and>
   first_index (candidates ascii_tables (ustr ''Results beta_x RESULTS gamma results Gamma Beta_X delta the'')) (ustr ''beta_x'') <
     first_index (candidates ascii_tables (ustr ''Results beta_x RESULTS gamma results Gamma Beta_X delta the'')) (ustr ''gamma'') \<and>
   int (length (tag ascii_tables (ustr ''Results beta_x RESULTS gamma results Gamma Beta_X delta the'') 1)) \<le> 1 \<and>
   distinct (tag ascii_tables (ustr ''Results beta_x RESULTS gamma results Gamma Beta_X delta the'') 1)"
proof -
  from tag_spec [of ascii_tables "ustr ''Results beta_x RESULTS gamma results Gamma Beta_X delta the''" 1]
  have "distinct (tag ascii_tables (ustr ''Results beta_x RESULTS gamma results Gamma Beta_X delta the'') 1)" by blast
  then show ?thesis
    unfolding sample_tag sample_candidates sample_lower
    using sample_ascii by (simp add: ustr_def first_index_def)
qed

section \<open>Keyword scores\<close>

lemma is_substring_iff: "is_substring a b \<longleftrightarrow> (\<exists>u v. b = u @ a @ v)"
proof (induction b)
  case Nil
  then show ?case by simp
next
  case (Cons y ys)
  show ?case
  proof
    assume "is_substring a (y # ys)"
    then consider "take (length a) (y # ys) = a" | "is_substring a ys" by auto
    then show "\<exists>u v. y # ys = u @ a @ v"
    proof cases
      case 1
      then have "y # ys = [] @ a @ drop (length a) (y # ys)"
        by (metis append_Nil append_take_drop_id)
      then show ?thesis by blast
    next
      case 2
      with Cons obtain u v where "ys = u @ a @ v" by blast
      then have "y # ys = (y # u) @ a @ v" by simp
      then show ?thesis by blast
    qed
  next
    assume "\<exists>u v. y # ys = u @ a @ v"
    then obtain u v where uv: "y # ys = u @ a @ v" by blast
    show "is_substring a (y # ys)"
    proof (cases u)
      case Nil
      with uv have "take (length a) (y # ys) = a" by simp
      then show ?thesis by simp
    next
      case (Cons x u')
      with uv have "ys = u' @ a @ v" by simp
      with Cons.IH have "is_substring a ys" by blast
      then show ?thesis by simp
    qed
  qed
qed

lemma kw_score_perm: "mset cs' = mset cs \<Longrightarrow> kw_score U cs' s = kw_score U cs s"
proof -
  assume eq: "mset cs' = mset cs"
  let ?f = "\<lambda>w. if is_substring (take 5 w) (lower U s) then 1 else (0::nat)"
  from eq have "mset (map ?f cs') = mset (map ?f cs)" by (simp only: mset_map)
  then have "sum_mset (mset (map ?f cs')) = sum_mset (mset (map ?f cs))" by (rule arg_cong)
  then show ?thesis unfolding kw_score_def sum_mset_sum_list .
qed

lemma kw_score_count:
  "kw_score U cs s = length (filter (\<lambda>w. is_substring (take 5 w) (lower U s)) cs)"
  unfolding kw_score_def by (induction cs) simp_all

lemma kw_score_card:
  assumes "distinct cs"
  shows "kw_score U cs s = card {w \<in> set cs. \<exists>u v. lower U s = u @ take 5 w @ v}"
proof -
  have "{w \<in> set cs. \<exists>u v. lower U s = u @ take 5 w @ v} =
        {w. is_substring (take 5 w) (lower U s)} \<inter> set cs"
    by (auto simp: is_substring_iff)
  with distinct_length_filter [OF assms, of "\<lambda>w. is_substring (take 5 w) (lower U s)"]
  show ?thesis by (simp add: kw_score_count)
qed

lemma common_words_filter:
  "common_words U text = filter (\<lambda>w. 4 < length w) (map fst (most_common 20 (Counter (runs (is_word U) (lower U text)))))"
proof -
  have "filter (\<lambda>(w, c). 4 < length w) xs = filter ((\<lambda>w. 4 < length w) \<circ> fst) xs"
    for xs :: "(str \<times> nat) list"
    by (rule filter_cong) auto
  then show ?thesis
    unfolding common_words_def findall_words by (simp only: filter_map)
qed

lemma distinct_common_words: "distinct (common_words U text)"
  unfolding common_words_filter by (rule distinct_filter) (rule top_words_distinct)

lemma kw_scored_perm:
  assumes "mset (it (common_words U text)) = mset (common_words U text)"
  shows "kw_scored U it text sentences =
         map (\<lambda>s. (kw_score U (common_words U text) s, s)) sentences"
  unfolding kw_scored_def by (simp add: kw_score_perm [OF assms])

lemma common_words_ranking:
  "\<exists>ranking. distinct ranking \<and> set ranking = set (runs (is_word U) (lower U text)) \<and>
      sorted_wrt (\<lambda>a b. count_list (runs (is_word U) (lower U text)) b < count_list (runs (is_word U) (lower U text)) a \<or>
                         (count_list (runs (is_word U) (lower U text)) a = count_list (runs (is_word U) (lower U text)) b \<and>
                          first_index (runs (is_word U) (lower U text)) a < first_index (runs (is_word U) (lower U text)) b)) ranking \<and>
      map fst (most_common 20 (Counter (runs (is_word U) (lower U text)))) = take 20 ranking \<and>
      common_words U text = filter (\<lambda>w. 4 < length w) (take 20 ranking)"
proof -
  from most_common_ranking [of "runs (is_word U) (lower U text)" 20]
  obtain ranking where r: "distinct ranking" "set ranking = set (runs (is_word U) (lower U text))"
    "sorted_wrt (\<lambda>a b. count_list (runs (is_word U) (lower U text)) b < count_list (runs (is_word U) (lower U text)) a \<or>
                         (count_list (runs (is_word U) (lower U text)) a = count_list (runs (is_word U) (lower U text)) b \<and>
                          first_index (runs (is_word U) (lower U text)) a < first_index (runs (is_word U) (lower U text)) b)) ranking"
    and top: "map fst (most_common 20 (Counter (runs (is_word U) (lower U text)))) = take (nat 20) ranking"
    by blast
  from top have top': "map fst (most_common 20 (Counter (runs (is_word U) (lower U text)))) = take 20 ranking" by simp
  have "common_words U text = filter (\<lambda>w. 4 < length w) (take 20 ranking)"
    unfolding common_words_filter top' ..
  with r top' show ?thesis by blast
qed

lemma summarize_scored:
  "summarize U it raw max_len =
     (if sentences_of (clean U raw) = [] then nothing_msg
      else select (sorted_reverse (kw_scored U it (clean U raw) (sentences_of (clean U raw))))
             (clean U raw) max_len)"
  by (simp add: summarize_def Let_def kw_ranked_def)

lemma unders_plain: "\<forall>c \<in> set (ustr ''ab_cdefg. a zcdefg is in this sentence now''). plain U c"
  by (simp add: ustr_def plain_def unmarked_def is_digit_def)

lemma unders_clean: "clean U (ustr ''ab_cdefg. a zcdefg is in this sentence now'') = ustr ''ab_cdefg. a zcdefg is in this sentence now''"
proof -
  have "strip (ustr ''ab_cdefg. a zcdefg is in this sentence now'') = ustr ''ab_cdefg. a zcdefg is in this sentence now''"
    by (simp add: strip_def lstrip_def rstrip_def ustr_def table_eval)
  with clean_plain [OF unders_plain] show ?thesis by simp
qed

lemma unders_fields:
  "fields is_terminator (ustr ''ab_cdefg. a zcdefg is in this sentence now'') =
     [ustr ''ab_cdefg'', ustr '' a zcdefg is in this sentence now'']"
  by (simp add: ustr_def fields_Nil fields_no_case fields_yes is_terminator_def)

lemma unders_sentences: "sentences_of (ustr ''ab_cdefg. a zcdefg is in this sentence now'') = [ustr ''a zcdefg is in this sentence now'']"
  unfolding sentences_of_fields unders_fields
  by (simp add: strip_def lstrip_def rstrip_def ustr_def table_eval)

lemma unders_lower: "lower U (ustr ''ab_cdefg. a zcdefg is in this sentence now'') = ustr ''ab_cdefg. a zcdefg is in this sentence now''"
  by (simp add: lower_ascii ustr_def table_eval)

lemma unders_lower_sentence: "lower U (ustr ''a zcdefg is in this sentence now'') = ustr ''a zcdefg is in this sentence now''"
  by (simp add: lower_ascii ustr_def table_eval)

lemma unders_words:
  "runs (is_word U) (ustr ''ab_cdefg. a zcdefg is in this sentence now'') =
     map ustr [''ab_cdefg'', ''a'', ''zcdefg'', ''is'', ''in'', ''this'', ''sentence'', ''now'']"
  by (simp add: ustr_def table_eval)

lemma unders_alnum_runs:
  "runs (is_alnum U) (ustr ''ab_cdefg. a zcdefg is in this sentence now'') =
     map ustr [''ab'', ''cdefg'', ''a'', ''zcdefg'', ''is'', ''in'', ''this'', ''sentence'', ''now'']"
  by (simp add: ustr_def table_eval)

lemma unders_common:
  "common_words U (ustr ''ab_cdefg. a zcdefg is in this sentence now'') = [ustr ''ab_cdefg'', ustr ''zcdefg'', ustr ''sentence'']"
  unfolding common_words_filter unders_lower unders_words
  by (simp add: Counter_def most_common_def ustr_def)

lemma unders_alnum_common:
  "filter (\<lambda>w. 4 < length w) (map fst (most_common 20 (Counter (map ustr
      [''ab'', ''cdefg'', ''a'', ''zcdefg'', ''is'', ''in'', ''this'', ''sentence'', ''now''])))) =
   [ustr ''cdefg'', ustr ''zcdefg'', ustr ''sentence'']"
  by (simp add: Counter_def most_common_def ustr_def)

lemma unders_score:
  "kw_score U ([ustr ''ab_cdefg'', ustr ''zcdefg'', ustr ''sentence'']) (ustr ''a zcdefg is in this sentence now'') = 2"
  unfolding kw_score_def unders_lower_sentence by (simp add: ustr_def)

lemma unders_alnum_score:
  "length (filter (\<lambda>w. is_substring (take 5 w) (ustr ''a zcdefg is in this sentence now''))
     ([ustr ''cdefg'', ustr ''zcdefg'', ustr ''sentence''])) = 3"
  by (simp add: ustr_def)

text \<open>
  C5 as it is stated fails. The tokens are the matches of \<open>\w+\<close>, and \<open>\w\<close> matches the
  underscore. The text \<open>ab_cdefg. a zcdefg is in this sentence now\<close> is its own clean
  form and has one sentence, \<open>a zcdefg is in this sentence now\<close>. The program counts the
  token \<open>ab_cdefg\<close>, whose first five characters \<open>ab_cd\<close> are not in the sentence: the
  common set is \<open>ab_cdefg\<close>, \<open>zcdefg\<close>, \<open>sentence\<close> and the score is 2. With runs of
  alphanumeric characters as tokens the common set is \<open>cdefg\<close>, \<open>zcdefg\<close>, \<open>sentence\<close>,
  all three in the sentence, and the score would be 3.
\<close>

theorem keyword_scores_counterexample:
  "clean ascii_tables (ustr ''ab_cdefg. a zcdefg is in this sentence now'') = ustr ''ab_cdefg. a zcdefg is in this sentence now'' \<and>
   sentences_of (ustr ''ab_cdefg. a zcdefg is in this sentence now'') = [ustr ''a zcdefg is in this sentence now''] \<and>
   common_words ascii_tables (ustr ''ab_cdefg. a zcdefg is in this sentence now'') = [ustr ''ab_cdefg'', ustr ''zcdefg'', ustr ''sentence''] \<and>
   kw_scored ascii_tables id (ustr ''ab_cdefg. a zcdefg is in this sentence now'') [ustr ''a zcdefg is in this sentence now''] = [(2, ustr ''a zcdefg is in this sentence now'')] \<and>
   filter (\<lambda>w. 4 < length w) (map fst (most_common 20 (Counter
     (runs (is_alnum ascii_tables) (lower ascii_tables (ustr ''ab_cdefg. a zcdefg is in this sentence now'')))))) =
     [ustr ''cdefg'', ustr ''zcdefg'', ustr ''sentence''] \<and>
   length (filter (\<lambda>w. is_substring (take 5 w) (lower ascii_tables (ustr ''a zcdefg is in this sentence now'')))
     ([ustr ''cdefg'', ustr ''zcdefg'', ustr ''sentence''])) = 3"
proof -
  have "kw_scored ascii_tables id (ustr ''ab_cdefg. a zcdefg is in this sentence now'') [ustr ''a zcdefg is in this sentence now''] = [(2, ustr ''a zcdefg is in this sentence now'')]"
    unfolding kw_scored_def unders_common by (simp add: unders_score)
  moreover have "filter (\<lambda>w. 4 < length w) (map fst (most_common 20 (Counter
     (runs (is_alnum ascii_tables) (lower ascii_tables (ustr ''ab_cdefg. a zcdefg is in this sentence now'')))))) =
     [ustr ''cdefg'', ustr ''zcdefg'', ustr ''sentence'']"
    unfolding unders_lower unders_alnum_runs by (rule unders_alnum_common)
  moreover have "length (filter (\<lambda>w. is_substring (take 5 w) (lower ascii_tables (ustr ''a zcdefg is in this sentence now'')))
     ([ustr ''cdefg'', ustr ''zcdefg'', ustr ''sentence''])) = 3"
    unfolding unders_lower_sentence by (rule unders_alnum_score)
  ultimately show ?thesis
    using unders_clean [of ascii_tables] unders_sentences unders_common [of ascii_tables]
    by (simp only: simp_thms)
qed

text \<open>
  C5, as the code has it. In keyword mode the tokens are the maximal runs of word
  characters (alphanumeric characters and the underscore, what \<open>\w+\<close> matches) of the
  lowercased clean text; lowercasing a text of ASCII characters replaces \<open>A\<close> to \<open>Z\<close> by
  \<open>a\<close> to \<open>z\<close> and leaves every other character. The 20 most common tokens are the first
  20 entries of the ranking of the distinct tokens by falling count, ties in the order of
  first occurrence (so they are distinct, as many as there are up to 20, and a token left
  out is less frequent than each of them, or as frequent and first met later); the common
  set is those of the 20 that are longer than 4; and the scores are, sentence by sentence
  and in the order of the sentences, the number of common tokens whose first five
  characters occur as a substring of the lowercased sentence. The order in which the run
  iterates the common set (\<open>it\<close>) does not change a score. \<open>summarize\<close> ranks the
  sentences of the clean text by these scores.
\<close>

theorem keyword_scores:
  assumes "mset (it (common_words U text)) = mset (common_words U text)"
  shows
    "(\<forall>c. is_word U c \<longleftrightarrow> is_alnum U c \<or> c = 95) \<and>
     (list_all (\<lambda>c. c < 128) s \<longrightarrow>
        lower U s = map (\<lambda>c. if 65 \<le> c \<and> c \<le> 90 then c + 32 else c) s) \<and>
     (\<exists>ranking. distinct ranking \<and> set ranking = set (runs (is_word U) (lower U text)) \<and>
        sorted_wrt (\<lambda>a b. count_list (runs (is_word U) (lower U text)) b < count_list (runs (is_word U) (lower U text)) a \<or>
                         (count_list (runs (is_word U) (lower U text)) a = count_list (runs (is_word U) (lower U text)) b \<and>
                          first_index (runs (is_word U) (lower U text)) a < first_index (runs (is_word U) (lower U text)) b)) ranking \<and>
        map fst (most_common 20 (Counter (runs (is_word U) (lower U text)))) = take 20 ranking \<and>
        common_words U text = filter (\<lambda>w. 4 < length w) (take 20 ranking)) \<and>
     distinct (map fst (most_common 20 (Counter (runs (is_word U) (lower U text))))) \<and>
     set (map fst (most_common 20 (Counter (runs (is_word U) (lower U text)))))
       \<subseteq> set (runs (is_word U) (lower U text)) \<and>
     length (map fst (most_common 20 (Counter (runs (is_word U) (lower U text)))))
       = min 20 (card (set (runs (is_word U) (lower U text)))) \<and>
     (\<forall>w \<in> set (map fst (most_common 20 (Counter (runs (is_word U) (lower U text))))).
        \<forall>v \<in> set (runs (is_word U) (lower U text))
               - set (map fst (most_common 20 (Counter (runs (is_word U) (lower U text))))).
          count_list (runs (is_word U) (lower U text)) v < count_list (runs (is_word U) (lower U text)) w \<or>
          (count_list (runs (is_word U) (lower U text)) w = count_list (runs (is_word U) (lower U text)) v \<and>
           first_index (runs (is_word U) (lower U text)) w < first_index (runs (is_word U) (lower U text)) v)) \<and>
     distinct (common_words U text) \<and>
     set (common_words U text) =
       {w \<in> set (map fst (most_common 20 (Counter (runs (is_word U) (lower U text))))). 4 < length w} \<and>
     kw_scored U it text sentences =
       map (\<lambda>s. (card {w \<in> set (common_words U text). \<exists>u v. lower U s = u @ take 5 w @ v}, s))
         sentences \<and>
     map snd (kw_scored U it text sentences) = sentences \<and>
     summarize U it raw max_len =
       (if sentences_of (clean U raw) = [] then ustr ''Nothing to summarize after cleaning.''
        else select (sorted_reverse (kw_scored U it (clean U raw) (sentences_of (clean U raw))))
               (clean U raw) max_len)"
proof (intro conjI)
  let ?words = "runs (is_word U) (lower U text)"
  let ?top = "map fst (most_common 20 (Counter ?words))"
  show "\<forall>c. is_word U c \<longleftrightarrow> is_alnum U c \<or> c = 95" by (simp add: is_word_def)
  show "list_all (\<lambda>c. c < 128) s \<longrightarrow>
        lower U s = map (\<lambda>c. if 65 \<le> c \<and> c \<le> 90 then c + 32 else c) s"
    using lower_ascii_letters [of s U] by blast
  show "\<exists>ranking. distinct ranking \<and> set ranking = set (runs (is_word U) (lower U text)) \<and>
        sorted_wrt (\<lambda>a b. count_list (runs (is_word U) (lower U text)) b < count_list (runs (is_word U) (lower U text)) a \<or>
                         (count_list (runs (is_word U) (lower U text)) a = count_list (runs (is_word U) (lower U text)) b \<and>
                          first_index (runs (is_word U) (lower U text)) a < first_index (runs (is_word U) (lower U text)) b)) ranking \<and>
        map fst (most_common 20 (Counter (runs (is_word U) (lower U text)))) = take 20 ranking \<and>
        common_words U text = filter (\<lambda>w. 4 < length w) (take 20 ranking)"
    by (rule common_words_ranking)
  show "distinct ?top" by (rule top_words_distinct)
  show "set ?top \<subseteq> set ?words" by (rule top_words_subset)
  show "length ?top = min 20 (card (set ?words))"
    using top_words_length [of 20 ?words] by simp
  show "\<forall>w \<in> set ?top. \<forall>v \<in> set ?words - set ?top.
          count_list ?words v < count_list ?words w \<or>
          (count_list ?words w = count_list ?words v \<and>
           first_index ?words w < first_index ?words v)"
  proof (intro ballI)
    fix w v assume w: "w \<in> set ?top" and v: "v \<in> set ?words - set ?top"
    from v have v1: "v \<in> set ?words" and v2: "v \<notin> set ?top" by blast+
    from w v1 v2 show "count_list ?words v < count_list ?words w \<or>
          (count_list ?words w = count_list ?words v \<and>
           first_index ?words w < first_index ?words v)"
      by (rule most_common_before_rest)
  qed
  show "distinct (common_words U text)" by (rule distinct_common_words)
  show "set (common_words U text) = {w \<in> set ?top. 4 < length w}"
    unfolding common_words_filter by (simp only: set_filter)
  have sc: "kw_scored U it text sentences =
      map (\<lambda>s. (kw_score U (common_words U text) s, s)) sentences"
    using assms by (rule kw_scored_perm)
  show "kw_scored U it text sentences =
       map (\<lambda>s. (card {w \<in> set (common_words U text). \<exists>u v. lower U s = u @ take 5 w @ v}, s))
         sentences"
    unfolding sc by (simp only: kw_score_card [OF distinct_common_words])
  show "map snd (kw_scored U it text sentences) = sentences"
    unfolding sc by (simp add: comp_def)
  show "summarize U it raw max_len =
       (if sentences_of (clean U raw) = [] then ustr ''Nothing to summarize after cleaning.''
        else select (sorted_reverse (kw_scored U it (clean U raw) (sentences_of (clean U raw))))
               (clean U raw) max_len)"
    unfolding summarize_scored nothing_msg_def ..
qed

lemma alpha_ascii: "list_all (\<lambda>c. c < 128) (ustr ''Alpha b c d e f g h i j k l m n o p q r s t u ALPHA'')"
  by (simp add: ustr_def)

lemma alpha_lower:
  "lower U (ustr ''Alpha b c d e f g h i j k l m n o p q r s t u ALPHA'') = ustr ''alpha b c d e f g h i j k l m n o p q r s t u alpha''"
  by (simp add: lower_ascii ustr_def table_eval)

lemma alpha_words:
  "runs (is_word U) (ustr ''alpha b c d e f g h i j k l m n o p q r s t u alpha'') =
     map ustr [''alpha'', ''b'', ''c'', ''d'', ''e'', ''f'', ''g'', ''h'', ''i'', ''j'', ''k'', ''l'', ''m'',
               ''n'', ''o'', ''p'', ''q'', ''r'', ''s'', ''t'', ''u'', ''alpha'']"
  by (simp add: ustr_def table_eval)

lemma alpha_top:
  "map fst (most_common 20 (Counter (map ustr [''alpha'', ''b'', ''c'', ''d'', ''e'', ''f'', ''g'', ''h'',
      ''i'', ''j'', ''k'', ''l'', ''m'', ''n'', ''o'', ''p'', ''q'', ''r'', ''s'', ''t'', ''u'', ''alpha'']))) =
   map ustr [''alpha'', ''b'', ''c'', ''d'', ''e'', ''f'', ''g'', ''h'', ''i'', ''j'', ''k'', ''l'', ''m'',
             ''n'', ''o'', ''p'', ''q'', ''r'', ''s'', ''t'']"
  by (simp add: Counter_def most_common_def ustr_def)

lemma alpha_common: "common_words U (ustr ''Alpha b c d e f g h i j k l m n o p q r s t u ALPHA'') = [ustr ''alpha'']"
  unfolding common_words_filter alpha_lower alpha_words alpha_top by (simp add: ustr_def)

lemma alpha_score: "kw_score U [ustr ''alpha''] (ustr ''Alphabet'') = 1"
  by (simp add: kw_score_def lower_ascii ustr_def table_eval)

theorem keyword_scores_witness:
  "mset (rev (common_words ascii_tables (ustr ''Alpha b c d e f g h i j k l m n o p q r s t u ALPHA''))) = mset (common_words ascii_tables (ustr ''Alpha b c d e f g h i j k l m n o p q r s t u ALPHA'')) \<and>
   list_all (\<lambda>c. c < 128) (ustr ''Alpha b c d e f g h i j k l m n o p q r s t u ALPHA'') \<and>
   lower ascii_tables (ustr ''Alpha b c d e f g h i j k l m n o p q r s t u ALPHA'') = ustr ''alpha b c d e f g h i j k l m n o p q r s t u alpha'' \<and>
   common_words ascii_tables (ustr ''Alpha b c d e f g h i j k l m n o p q r s t u ALPHA'') = [ustr ''alpha''] \<and>
   ustr ''t'' \<in> set (map fst (most_common 20 (Counter (runs (is_word ascii_tables)
      (lower ascii_tables (ustr ''Alpha b c d e f g h i j k l m n o p q r s t u ALPHA'')))))) \<and>
   ustr ''u'' \<in> set (runs (is_word ascii_tables) (lower ascii_tables (ustr ''Alpha b c d e f g h i j k l m n o p q r s t u ALPHA'')))
      - set (map fst (most_common 20 (Counter (runs (is_word ascii_tables)
          (lower ascii_tables (ustr ''Alpha b c d e f g h i j k l m n o p q r s t u ALPHA'')))))) \<and>
   count_list (runs (is_word ascii_tables) (lower ascii_tables (ustr ''Alpha b c d e f g h i j k l m n o p q r s t u ALPHA''))) (ustr ''t'')
    = count_list (runs (is_word ascii_tables) (lower ascii_tables (ustr ''Alpha b c d e f g h i j k l m n o p q r s t u ALPHA''))) (ustr ''u'') \<and>
   first_index (runs (is_word ascii_tables) (lower ascii_tables (ustr ''Alpha b c d e f g h i j k l m n o p q r s t u ALPHA''))) (ustr ''t'')
    < first_index (runs (is_word ascii_tables) (lower ascii_tables (ustr ''Alpha b c d e f g h i j k l m n o p q r s t u ALPHA''))) (ustr ''u'') \<and>
   kw_scored ascii_tables rev (ustr ''Alpha b c d e f g h i j k l m n o p q r s t u ALPHA'') [ustr ''Alphabet''] = [(1, ustr ''Alphabet'')]"
proof -
  let ?t = "ustr ''Alpha b c d e f g h i j k l m n o p q r s t u ALPHA''"
  let ?U = ascii_tables
  have perm: "mset (rev (common_words ?U ?t)) = mset (common_words ?U ?t)" by simp
  from keyword_scores [where ?it = rev and ?U = ascii_tables and ?text = "?t" and
      ?sentences = "[ustr ''Alphabet'']", OF perm]
  have "map snd (kw_scored ?U rev ?t [ustr ''Alphabet'']) = [ustr ''Alphabet'']" by blast
  have sc: "kw_scored ?U rev ?t [ustr ''Alphabet''] = [(1, ustr ''Alphabet'')]"
    unfolding kw_scored_def alpha_common by (simp add: alpha_score)
  have "ustr ''t'' \<in> set (map fst (most_common 20 (Counter (runs (is_word ?U) (lower ?U ?t)))))"
    unfolding alpha_lower alpha_words alpha_top by simp
  moreover have "ustr ''u'' \<in> set (runs (is_word ?U) (lower ?U ?t))
      - set (map fst (most_common 20 (Counter (runs (is_word ?U) (lower ?U ?t)))))"
    unfolding alpha_lower alpha_words alpha_top by (simp add: ustr_def)
  moreover have "count_list (runs (is_word ?U) (lower ?U ?t)) (ustr ''t'')
      = count_list (runs (is_word ?U) (lower ?U ?t)) (ustr ''u'')"
    unfolding alpha_lower alpha_words by (simp add: ustr_def)
  moreover have "first_index (runs (is_word ?U) (lower ?U ?t)) (ustr ''t'')
      < first_index (runs (is_word ?U) (lower ?U ?t)) (ustr ''u'')"
    unfolding alpha_lower alpha_words by (simp add: ustr_def first_index_def)
  ultimately show ?thesis
    using perm sc alpha_common [of ?U] alpha_ascii alpha_lower [of ?U]
      \<open>map snd (kw_scored ?U rev ?t [ustr ''Alphabet'']) = [ustr ''Alphabet'']\<close> by blast
qed

section \<open>Determinism\<close>

lemma kw_scored_order:
  assumes "mset (it1 (common_words U text)) = mset (common_words U text)"
    and "mset (it2 (common_words U text)) = mset (common_words U text)"
  shows "kw_scored U it1 text sentences = kw_scored U it2 text sentences"
  by (simp only: kw_scored_perm [where ?it = it1 and ?text = "text", OF assms(1)]
      kw_scored_perm [where ?it = it2 and ?text = "text", OF assms(2)])

lemma sorted_reverse_descending:
  fixes xs :: "('a::linorder \<times> 'b::linorder) list"
  shows "sorted_wrt (\<lambda>a b. fst b < fst a \<or> (fst a = fst b \<and> snd b \<le> snd a)) (sorted_reverse xs)"
proof -
  have "sorted_wrt (\<le>) (sort xs)" by simp
  then have "sorted_wrt (\<lambda>a b. b \<le> a) (rev (sort xs))" by (simp only: sorted_wrt_rev)
  then show ?thesis
    unfolding sorted_reverse_def
    by (rule sorted_wrt_mono_rel [rotated]) (auto simp: less_eq_prod_def)
qed

lemma sorted_reverse_mset: "mset xs = mset ys \<Longrightarrow> sorted_reverse xs = sorted_reverse ys"
proof -
  assume "mset xs = mset ys"
  then have "sort xs = sort ys"
    by (metis mset_sort properties_for_sort sorted_sort)
  then show ?thesis by (simp add: sorted_reverse_def)
qed

text \<open>
  C7. The one thing in a keyword-mode run that the input does not fix is the order in
  which the set \<open>common\<close> is iterated (it follows the hashes of the strings, which change
  with the hash seed of the process). Two runs on the same text, whatever order each of
  them iterates the set in, rank the sentences identically and return the same summary,
  tags and metrics. The ranking is the descending order of the pairs (score, sentence):
  sentences of equal score come in descending order of their text, so the ranking depends
  on the sentences and not on the order they came in.
\<close>

theorem run_deterministic:
  assumes "\<forall>cs. mset (it1 cs) = mset cs" and "\<forall>cs. mset (it2 cs) = mset cs"
  shows "run U it1 raw = run U it2 raw \<and>
         summarize U it1 raw max_len = summarize U it2 raw max_len \<and>
         kw_ranked U it1 t ss = kw_ranked U it2 t ss \<and>
         sorted_wrt (\<lambda>a b. fst b < fst a \<or> (fst a = fst b \<and> snd b \<le> snd a)) (kw_ranked U it1 t ss) \<and>
         (mset ss' = mset ss \<longrightarrow> kw_ranked U it1 t ss' = kw_ranked U it1 t ss)"
proof -
  have scored: "kw_scored U it1 x ys = kw_scored U it2 x ys" for x ys
    using assms by (intro kw_scored_order) simp_all
  have ranked: "kw_ranked U it1 x ys = kw_ranked U it2 x ys" for x ys
    by (simp add: kw_ranked_def scored)
  have summ: "summarize U it1 x n = summarize U it2 x n" for x n
    by (simp add: summarize_def Let_def ranked)
  have "run U it1 raw = run U it2 raw" by (simp add: run_def Let_def summ)
  moreover have "sorted_wrt (\<lambda>a b. fst b < fst a \<or> (fst a = fst b \<and> snd b \<le> snd a))
      (kw_ranked U it1 t ss)"
    unfolding kw_ranked_def by (rule sorted_reverse_descending)
  moreover have "kw_ranked U it1 t ss' = kw_ranked U it1 t ss" if "mset ss' = mset ss"
  proof -
    from that have "mset (kw_scored U it1 t ss') = mset (kw_scored U it1 t ss)"
      unfolding kw_scored_def by (simp only: mset_map)
    then show ?thesis unfolding kw_ranked_def by (rule sorted_reverse_mset)
  qed
  ultimately show ?thesis using ranked summ by blast
qed

theorem run_deterministic_witness:
  "(\<forall>cs :: str list. mset (rev cs) = mset cs) \<and> (\<forall>cs :: str list. mset (id cs) = mset cs) \<and>
   run ascii_tables rev (ustr ''Alpha beta gamma delta. Gamma alpha beta delta!'') =
     run ascii_tables id (ustr ''Alpha beta gamma delta. Gamma alpha beta delta!'') \<and>
   mset [ustr ''b'', ustr ''a''] = mset [ustr ''a'', ustr ''b''] \<and>
   kw_ranked ascii_tables rev (ustr ''alpha'') [ustr ''b'', ustr ''a''] =
     kw_ranked ascii_tables rev (ustr ''alpha'') [ustr ''a'', ustr ''b'']"
proof -
  have r: "\<forall>cs :: str list. mset (rev cs) = mset cs" by simp
  have i: "\<forall>cs :: str list. mset (id cs) = mset cs" by simp
  have m: "mset [ustr ''b'', ustr ''a''] = mset [ustr ''a'', ustr ''b'']" by simp
  from run_deterministic [OF r i, where U = ascii_tables and raw = "ustr ''Alpha beta gamma delta. Gamma alpha beta delta!''"
      and ss' = "[ustr ''b'', ustr ''a'']" and ss = "[ustr ''a'', ustr ''b'']" and t = "ustr ''alpha''"]
    r i m show ?thesis by blast
qed

end
